theory Spec2Isabelle
  imports Main "HOL-Library.Sublist" "HOL-Library.List_Lexorder" "HOL-Library.Char_ord"
begin

section \<open>go-logger: a shallow embedding of logger/logger.go\<close>

text \<open>
  The package formats a levelled log message with optional HTTP request fields, renders
  it as coloured text or as JSON, and writes one line to an \<^verbatim>\<open>io.Writer\<close>.
  Go strings are byte sequences, so a Go \<^verbatim>\<open>string\<close> is a \<^typ>\<open>string\<close> (a list of
  8-bit characters) here. Bytes that have no printable literal are written \<open>CHR 0x..\<close>.
\<close>

abbreviation ESC :: char where "ESC \<equiv> CHR 0x1B"
abbreviation LF :: char where "LF \<equiv> CHR 0x0A"
abbreviation DQ :: char where "DQ \<equiv> CHR 0x22"
abbreviation BSL :: char where "BSL \<equiv> CHR 0x5C"

subsection \<open>The parts of the Go standard library that logger.go calls\<close>

text \<open>
  \<^verbatim>\<open>strings.ReplaceAll(s, old, new)\<close> for a pattern \<open>old\<close> of one byte, the only way
  logger.go calls it (\<^verbatim>\<open>strings.ReplaceAll(msg, "\n", " ")\<close>): every occurrence of the
  byte is replaced, left to right.
\<close>

primrec ReplaceAll :: "string \<Rightarrow> char \<Rightarrow> string \<Rightarrow> string" where
  "ReplaceAll [] old new = []"
| "ReplaceAll (c # cs) old new =
     (if c = old then new @ ReplaceAll cs old new else c # ReplaceAll cs old new)"

text \<open>
  \<^verbatim>\<open>strings.Split(s, sep)\<close> for a separator of one byte. Go's loop looks for the next
  separator, cuts the part before it and goes on behind it; what is left when no
  separator remains is the last part, so the result is never empty:
  \<^verbatim>\<open>Split("", "/")\<close> is \<^verbatim>\<open>[""]\<close>.
\<close>

function Split :: "string \<Rightarrow> char \<Rightarrow> string list" where
  "Split s sep =
     (case dropWhile (\<lambda>c. c \<noteq> sep) s of
        [] \<Rightarrow> [s]
      | _ # rest \<Rightarrow> takeWhile (\<lambda>c. c \<noteq> sep) s # Split rest sep)"
  by pat_completeness auto
termination
proof (relation "measure (\<lambda>(s, sep). length s)")
  show "wf (measure (\<lambda>(s, sep). length s))" by simp
next
  fix s :: string and sep x rest
  assume d: "dropWhile (\<lambda>c. c \<noteq> sep) s = x # rest"
  have "length (dropWhile (\<lambda>c. c \<noteq> sep) s) \<le> length s" by (rule length_dropWhile_le)
  with d show "((rest, sep), (s, sep)) \<in> measure (\<lambda>(s, sep). length s)" by simp
qed

declare Split.simps [simp del]

text \<open>\<^verbatim>\<open>strings.Join(elems, sep)\<close>.\<close>

fun Join :: "string list \<Rightarrow> string \<Rightarrow> string" where
  "Join [] sep = []"
| "Join [a] sep = a"
| "Join (a # b # r) sep = a @ sep @ Join (b # r) sep"

text \<open>
  The verb \<^verbatim>\<open>%d\<close> of \<^verbatim>\<open>fmt.Sprintf\<close> on an \<^verbatim>\<open>int\<close>: decimal digits, most
  significant first, with a minus sign for a negative number.
\<close>

definition digit :: "nat \<Rightarrow> char" where
  "digit d = ''0123456789'' ! d"

function decimal :: "nat \<Rightarrow> string" where
  "decimal n = (if n < 10 then [digit n] else decimal (n div 10) @ [digit (n mod 10)])"
  by pat_completeness auto
termination
  by (relation "measure id") auto

declare decimal.simps [simp del]

definition Itoa :: "int \<Rightarrow> string" where
  "Itoa i = (if i < 0 then CHR ''-'' # decimal (nat (- i)) else decimal (nat i))"

text \<open>
  \<^verbatim>\<open>runtime.Caller(skip)\<close>. The call stack is a list of source locations (file, line),
  innermost first: entry 0 is the location inside the function that calls
  \<^verbatim>\<open>runtime.Caller\<close>, entry 1 the place that function was called from, and so on.
  When the stack has no entry \<open>skip\<close>, Go returns the zero values
  \<^verbatim>\<open>("", 0)\<close> and \<^verbatim>\<open>ok = false\<close>.
\<close>

type_synonym frame = "string \<times> int"

definition Caller :: "nat \<Rightarrow> frame list \<Rightarrow> string \<times> int \<times> bool" where
  "Caller skip stack =
     (if skip < length stack then (fst (stack ! skip), snd (stack ! skip), True)
      else ([], 0, False))"

subsection \<open>stripColors\<close>

text \<open>
  \<^verbatim>\<open>
  func stripColors(s string) string {
      re := regexp.MustCompile(`\x1b\[[0-9;]*[mGK]`)
      return re.ReplaceAllString(s, "")
  }
  \<close>
  The pattern is ESC, an opening bracket, any number of parameter bytes (digits and
  semicolons) and one final byte among \<open>m\<close>, \<open>G\<close>, \<open>K\<close>. Parameter bytes and final bytes
  are disjoint, so at a given position the greedy star can only stop at the end of the
  run of parameter bytes: \<open>match_csi s\<close> is what is left of \<open>s\<close> behind the match that
  starts at its first byte, if there is one. \<^verbatim>\<open>ReplaceAllString\<close> scans from the left,
  deletes a match where it finds one and goes on behind it, and otherwise keeps the
  byte and moves one byte on.
\<close>

definition is_param :: "char \<Rightarrow> bool" where
  "is_param c = (c \<in> set ''0123456789;'')"

definition is_final :: "char \<Rightarrow> bool" where
  "is_final c = (c \<in> set ''mGK'')"

definition match_csi :: "string \<Rightarrow> string option" where
  "match_csi s =
     (case s of
        e # b # r \<Rightarrow>
          if e = ESC \<and> b = CHR ''[''
          then (case dropWhile is_param r of
                  f # r' \<Rightarrow> if is_final f then Some r' else None
                | [] \<Rightarrow> None)
          else None
      | _ \<Rightarrow> None)"

lemma match_csi_shorter: "match_csi s = Some r \<Longrightarrow> length r < length s"
proof -
  assume m: "match_csi s = Some r"
  then obtain e b t f where s: "s = e # b # t" and d: "dropWhile is_param t = f # r"
    unfolding match_csi_def by (auto split: list.splits if_splits)
  have "length (dropWhile is_param t) \<le> length t" by (rule length_dropWhile_le)
  with s d show ?thesis by simp
qed

function stripColors :: "string \<Rightarrow> string" where
  "stripColors [] = []"
| "stripColors (c # cs) =
     (case match_csi (c # cs) of
        Some r \<Rightarrow> stripColors r
      | None \<Rightarrow> c # stripColors cs)"
  by pat_completeness auto
termination
  by (relation "measure length") (auto dest: match_csi_shorter)

text \<open>\<open>hasCSI s\<close>: some substring of \<open>s\<close> matches the pattern.\<close>

fun hasCSI :: "string \<Rightarrow> bool" where
  "hasCSI [] = False"
| "hasCSI (c # cs) = (match_csi (c # cs) \<noteq> None \<or> hasCSI cs)"

text \<open>
  \<open>escapesMatch s\<close>: every ESC byte of \<open>s\<close> is the first byte of a match of the pattern.
\<close>

fun escapesMatch :: "string \<Rightarrow> bool" where
  "escapesMatch [] = True"
| "escapesMatch (c # cs) = ((c = ESC \<longrightarrow> match_csi (c # cs) \<noteq> None) \<and> escapesMatch cs)"

subsection \<open>Levels, fields and the logger\<close>

text \<open>
  \<^verbatim>\<open>type LogLevel int\<close> with the constants \<^verbatim>\<open>LevelDebug = iota\<close> to
  \<^verbatim>\<open>LevelFatal\<close>. A \<^verbatim>\<open>LogLevel\<close> is any Go \<^verbatim>\<open>int\<close>; the code only compares levels,
  so the model uses \<^typ>\<open>int\<close>.
\<close>

type_synonym LogLevel = int

definition LevelDebug :: LogLevel where "LevelDebug = 0"
definition LevelInfo :: LogLevel where "LevelInfo = 1"
definition LevelWarn :: LogLevel where "LevelWarn = 2"
definition LevelError :: LogLevel where "LevelError = 3"
definition LevelFatal :: LogLevel where "LevelFatal = 4"

definition levels :: "LogLevel list" where
  "levels = [LevelDebug, LevelInfo, LevelWarn, LevelError, LevelFatal]"

record LogFields =
  Method :: string
  Path :: string
  Status :: string
  Size :: string
  Latency :: string
  CallerInfo :: string

definition NewLogFields :: "string \<Rightarrow> string \<Rightarrow> string \<Rightarrow> string \<Rightarrow> string \<Rightarrow> LogFields" where
  "NewLogFields method path status sz latency =
     \<lparr>Method = method, Path = path, Status = status, Size = sz, Latency = latency,
      CallerInfo = []\<rparr>"

text \<open>
  What a call can end with other than its return: a run-time panic. Go's
  \<^verbatim>\<open>Write\<close> reports failure by an \<^verbatim>\<open>error\<close> value, modelled by \<open>WriteError\<close>.
\<close>

datatype error = NilPointerDereference | Panic string | WriteError string

text \<open>
  The surroundings a call reads: \<open>now\<close> is the string
  \<^verbatim>\<open>time.Now().Format(time.RFC3339)\<close> returns at the moment of the call, \<open>NoColor\<close> is
  the package variable \<^verbatim>\<open>color.NoColor\<close> of github.com/fatih/color (true when standard
  output is no terminal), and \<open>srcFile\<close> is the path under which logger.go was compiled,
  the file name of the package's own stack frames. \<open>shortEscapes\<close> is the one point in
  which the releases of encoding/json differ on strings: since Go 1.22 the bytes 0x08 and
  0x0C are written as backslash \<open>b\<close> and backslash \<open>f\<close>, before that as \<^verbatim>\<open>\u0008\<close> and
  \<^verbatim>\<open>\u000c\<close>.
\<close>

record Env =
  now :: string
  NoColor :: bool
  srcFile :: string
  shortEscapes :: bool

text \<open>
  An \<^verbatim>\<open>io.Writer\<close>: \<^verbatim>\<open>Write(p)\<close> acts on the state of the sink (of type \<open>'w\<close>) and
  returns an error or \<^verbatim>\<open>nil\<close>. A formatter is a function value; the built-in ones read
  the clock and \<^verbatim>\<open>color.NoColor\<close>, and one of them can panic.
\<close>

type_synonym 'w Writer = "string \<Rightarrow> 'w \<Rightarrow> 'w \<times> error option"

type_synonym Formatter = "Env \<Rightarrow> LogLevel \<Rightarrow> string \<Rightarrow> LogFields \<Rightarrow> error + string"

text \<open>
  \<^verbatim>\<open>type Logger struct { name; level; out; color; formatter; mutex }\<close>. The model is
  sequential: the mutex is free before every call and \<^verbatim>\<open>Log\<close> releases it before it
  returns, so it has no field here.
\<close>

record 'w Logger =
  name :: string
  level :: LogLevel
  out :: "'w Writer"
  color :: bool
  formatter :: Formatter

subsection \<open>github.com/fatih/color\<close>

text \<open>
  \<^verbatim>\<open>color.New(attr).Sprint(s)\<close> and \<^verbatim>\<open>Sprintf\<close> return the text unchanged when
  \<^verbatim>\<open>color.NoColor\<close> is set, and otherwise wrap it: ESC \<open>[\<close> code \<open>m\<close> before, the reset
  ESC \<open>[0m\<close> behind.
\<close>

datatype Attribute =
  FgCyan | FgHiRed | FgHiGreen | FgHiYellow | FgHiBlue | FgHiMagenta | FgHiCyan | FgHiWhite

fun attrCode :: "Attribute \<Rightarrow> nat" where
  "attrCode FgCyan = 36"
| "attrCode FgHiRed = 91"
| "attrCode FgHiGreen = 92"
| "attrCode FgHiYellow = 93"
| "attrCode FgHiBlue = 94"
| "attrCode FgHiMagenta = 95"
| "attrCode FgHiCyan = 96"
| "attrCode FgHiWhite = 97"

definition Sprint :: "Env \<Rightarrow> Attribute \<Rightarrow> string \<Rightarrow> string" where
  "Sprint env a s =
     (if NoColor env then s
      else [ESC, CHR ''[''] @ decimal (attrCode a) @ ''m'' @ s @ [ESC] @ ''[0m'')"

subsection \<open>defaultFormatter\<close>

text \<open>
  The \<^verbatim>\<open>switch\<close> sets \<^verbatim>\<open>levelStr\<close> and \<^verbatim>\<open>levelColor\<close> for the five constants and has
  no default case: for any other level \<^verbatim>\<open>levelColor\<close> stays \<^verbatim>\<open>nil\<close>, and
  \<^verbatim>\<open>levelColor.Sprintf\<close> dereferences it. The components are appended in the order of
  the source and joined by one space.
\<close>

definition levelStyle :: "LogLevel \<Rightarrow> (string \<times> Attribute) option" where
  "levelStyle lv =
     (if lv = LevelDebug then Some (''DEBUG'', FgHiCyan)
      else if lv = LevelInfo then Some (''INFO'', FgHiGreen)
      else if lv = LevelWarn then Some (''WARN'', FgHiYellow)
      else if lv = LevelError then Some (''ERROR'', FgHiRed)
      else if lv = LevelFatal then Some (''FATAL'', FgHiMagenta)
      else None)"

definition defaultFormatter :: Formatter where
  "defaultFormatter env lv message flds =
     (let timestamp = now env in
      case levelStyle lv of
        None \<Rightarrow> Inl NilPointerDereference
      | Some (levelStr, levelColor) \<Rightarrow>
          let components =
                [Sprint env levelColor (''['' @ levelStr @ '']''),
                 Sprint env FgHiWhite timestamp];
              components =
                (if Method flds \<noteq> [] \<and> Path flds \<noteq> []
                 then components @ [Sprint env FgHiBlue (Method flds @ '' '' @ Path flds)]
                 else components);
              components =
                (if Status flds \<noteq> []
                 then components @ [Sprint env FgHiGreen (Status flds)]
                 else components);
              components =
                (if Size flds \<noteq> []
                 then components @ [Sprint env FgHiYellow (Size flds)]
                 else components);
              components =
                (if Latency flds \<noteq> []
                 then components @ [Sprint env FgHiMagenta (Latency flds)]
                 else components);
              components =
                components @ [Sprint env FgHiWhite ''-'', Sprint env FgCyan message];
              components =
                components @ [Sprint env FgHiWhite ''-'', Sprint env FgHiBlue (CallerInfo flds)]
          in Inr (Join components '' ''))"

subsection \<open>JSONFormatter and encoding/json\<close>

text \<open>\<^verbatim>\<open>func (l LogLevel) String() string\<close>, with its default case.\<close>

definition LogLevel_String :: "LogLevel \<Rightarrow> string" where
  "LogLevel_String lv =
     (if lv = LevelDebug then ''debug''
      else if lv = LevelInfo then ''info''
      else if lv = LevelWarn then ''warn''
      else if lv = LevelError then ''error''
      else if lv = LevelFatal then ''fatal''
      else ''unknown'')"

text \<open>
  \<^verbatim>\<open>utf8.DecodeRuneInString\<close>: the code point at the start of the string and the number
  of bytes it takes; \<open>(RuneError, 1)\<close> for a byte that starts no well-formed UTF-8
  sequence. \<open>runeSize\<close> is the length the first byte announces (0 for a byte that cannot
  come first), \<open>acceptLo\<close> and \<open>acceptHi\<close> bound the second byte.
\<close>

definition RuneError :: nat where "RuneError = 0xFFFD"

definition runeSize :: "nat \<Rightarrow> nat" where
  "runeSize s0 =
     (if s0 < 0x80 then 1
      else if 0xC2 \<le> s0 \<and> s0 \<le> 0xDF then 2
      else if 0xE0 \<le> s0 \<and> s0 \<le> 0xEF then 3
      else if 0xF0 \<le> s0 \<and> s0 \<le> 0xF4 then 4
      else 0)"

definition acceptLo :: "nat \<Rightarrow> nat" where
  "acceptLo s0 = (if s0 = 0xE0 then 0xA0 else if s0 = 0xF0 then 0x90 else 0x80)"

definition acceptHi :: "nat \<Rightarrow> nat" where
  "acceptHi s0 = (if s0 = 0xED then 0x9F else if s0 = 0xF4 then 0x8F else 0xBF)"

definition DecodeRuneInString :: "string \<Rightarrow> nat \<times> nat" where
  "DecodeRuneInString s =
     (case s of
        [] \<Rightarrow> (RuneError, 0)
      | c0 # _ \<Rightarrow>
          let s0 = of_char c0; sz = runeSize s0 in
          if sz = 1 then (s0, 1)
          else if sz = 0 then (RuneError, 1)
          else if length s < sz then (RuneError, 1)
          else
            let s1 = of_char (s ! 1) in
            if s1 < acceptLo s0 \<or> acceptHi s0 < s1 then (RuneError, 1)
            else if sz \<le> 2 then (s0 mod 32 * 64 + s1 mod 64, 2)
            else
              let s2 = of_char (s ! 2) in
              if s2 < 0x80 \<or> 0xBF < s2 then (RuneError, 1)
              else if sz \<le> 3 then (s0 mod 16 * 4096 + s1 mod 64 * 64 + s2 mod 64, 3)
              else
                let s3 = of_char (s ! 3) in
                if s3 < 0x80 \<or> 0xBF < s3 then (RuneError, 1)
                else (s0 mod 8 * 262144 + s1 mod 64 * 4096 + s2 mod 64 * 64 + s3 mod 64, 4))"

text \<open>
  \<^verbatim>\<open>appendString(dst, src, escapeHTML = true)\<close> of encoding/json: the bytes of
  \<open>htmlSafeSet\<close> are copied; the other ASCII bytes are escaped, with a short escape for
  the quote, the backslash, newline, carriage return and tab (and for 0x08 and 0x0C when
  \<open>short\<close> holds, see \<open>shortEscapes\<close> above) and \<^verbatim>\<open>\u00XX\<close> otherwise; a byte that
  starts no well-formed UTF-8 sequence becomes the escape of U+FFFD; U+2028 and U+2029 are
  escaped; every other sequence is copied.
\<close>

definition htmlSafe :: "char \<Rightarrow> bool" where
  "htmlSafe b =
     (0x20 \<le> (of_char b :: nat) \<and> (of_char b :: nat) < 0x80 \<and>
      b \<notin> set [DQ, BSL, CHR ''<'', CHR ''>'', CHR ''&''])"

definition hexDigit :: "nat \<Rightarrow> char" where
  "hexDigit n = ''0123456789abcdef'' ! n"

definition escapeByte :: "bool \<Rightarrow> char \<Rightarrow> string" where
  "escapeByte short b =
     (if b = BSL \<or> b = DQ then [BSL, b]
      else if short \<and> b = CHR 0x08 then [BSL, CHR ''b'']
      else if short \<and> b = CHR 0x0C then [BSL, CHR ''f'']
      else if b = LF then [BSL, CHR ''n'']
      else if b = CHR 0x0D then [BSL, CHR ''r'']
      else if b = CHR 0x09 then [BSL, CHR ''t'']
      else [BSL, CHR ''u'', CHR ''0'', CHR ''0'',
            hexDigit (of_char b div 16), hexDigit (of_char b mod 16)])"

lemma DecodeRuneInString_size_le:
  "s \<noteq> [] \<Longrightarrow> snd (DecodeRuneInString s) \<le> length s"
  by (cases s) (auto simp: DecodeRuneInString_def Let_def)

lemma DecodeRuneInString_size_pos:
  "s \<noteq> [] \<Longrightarrow> 0 < snd (DecodeRuneInString s)"
  by (cases s) (auto simp: DecodeRuneInString_def Let_def)

lemma DecodeRuneInString_Cons_pos:
  "(c, n) = DecodeRuneInString (b # bs) \<Longrightarrow> 0 < n"
  using DecodeRuneInString_size_pos [of "b # bs"] by (metis list.distinct(1) snd_conv)

function quoteBody :: "bool \<Rightarrow> string \<Rightarrow> string" where
  "quoteBody short [] = []"
| "quoteBody short (b # bs) =
     (if (of_char b :: nat) < 0x80 then
        (if htmlSafe b then b # quoteBody short bs else escapeByte short b @ quoteBody short bs)
      else
        (case DecodeRuneInString (b # bs) of (c, n) \<Rightarrow>
           if c = RuneError \<and> n = 1 then [BSL] @ ''ufffd'' @ quoteBody short bs
           else if c = 0x2028 \<or> c = 0x2029
             then [BSL] @ ''u202'' @ [hexDigit (c mod 16)] @ quoteBody short (drop n (b # bs))
           else take n (b # bs) @ quoteBody short (drop n (b # bs))))"
  by pat_completeness auto
termination
  by (relation "measure (\<lambda>(short, s). length s)") (auto dest: DecodeRuneInString_Cons_pos)

declare quoteBody.simps [simp del]

definition appendString :: "bool \<Rightarrow> string \<Rightarrow> string" where
  "appendString short s = [DQ] @ quoteBody short s @ [DQ]"

text \<open>
  \<^verbatim>\<open>json.Marshal\<close> on the values \<^verbatim>\<open>JSONFormatter\<close> builds. A \<^verbatim>\<open>LogFields\<close> is
  encoded field by field in the order of the declaration, under the key of its tag, and
  \<^verbatim>\<open>omitempty\<close> leaves out a field that is the empty string. A
  \<^verbatim>\<open>map[string]any\<close> is encoded with its keys sorted; \<open>any\<close> holds the two dynamic
  types that occur in the map.
\<close>

definition marshalLogFields :: "bool \<Rightarrow> LogFields \<Rightarrow> string" where
  "marshalLogFields short f =
     ''{'' @
     Join (map (\<lambda>(k, v). appendString short k @ '':'' @ appendString short v)
            (filter (\<lambda>(k, v). v \<noteq> [])
               [(''method'', Method f), (''path'', Path f), (''status'', Status f),
                (''size'', Size f), (''latency'', Latency f),
                (''caller_info'', CallerInfo f)])) '','' @
     ''}''"

datatype any = AString string | AFields LogFields

fun marshalAny :: "bool \<Rightarrow> any \<Rightarrow> string" where
  "marshalAny short (AString s) = appendString short s"
| "marshalAny short (AFields f) = marshalLogFields short f"

definition marshalMap :: "bool \<Rightarrow> (string \<times> any) list \<Rightarrow> string" where
  "marshalMap short m =
     ''{'' @
     Join (map (\<lambda>(k, v). appendString short k @ '':'' @ marshalAny short v)
            (sort_key fst m)) '','' @
     ''}''"

definition JSONFormatter :: Formatter where
  "JSONFormatter env lv message flds =
     (let entry =
            [(''timestamp'', AString (now env)),
             (''level'', AString (LogLevel_String lv)),
             (''message'', AString message),
             (''fields'', AFields flds)]
      in Inr (marshalMap (shortEscapes env) entry))"

subsection \<open>The logger's methods\<close>

definition NewLogger :: "'w Writer \<Rightarrow> string \<Rightarrow> 'w Logger" where
  "NewLogger stdout nm =
     \<lparr>name = nm, level = LevelInfo, out = stdout, color = True,
      formatter = defaultFormatter\<rparr>"

definition SetLevel :: "LogLevel \<Rightarrow> 'w Logger \<Rightarrow> 'w Logger" where
  "SetLevel lv l = l\<lparr>level := lv\<rparr>"

definition SetOutput :: "'w Writer \<Rightarrow> 'w Logger \<Rightarrow> 'w Logger" where
  "SetOutput wr l = l\<lparr>out := wr\<rparr>"

definition SetColor :: "bool \<Rightarrow> 'w Logger \<Rightarrow> 'w Logger" where
  "SetColor enabled l = l\<lparr>color := enabled\<rparr>"

definition SetFormatter :: "Formatter \<Rightarrow> 'w Logger \<Rightarrow> 'w Logger" where
  "SetFormatter fn l = l\<lparr>formatter := fn\<rparr>"

text \<open>
  \<^verbatim>\<open>func (l *Logger) Log(level LogLevel, msg string, fields LogFields)\<close>. The argument
  \<open>callers\<close> is the call stack above \<^verbatim>\<open>Log\<close>, innermost first: entry 0 is the place
  \<^verbatim>\<open>Log\<close> was called from. \<^verbatim>\<open>runtime.Caller(2)\<close> runs at line 96 of logger.go.
  \<^verbatim>\<open>fmt.Fprintln\<close> makes one \<^verbatim>\<open>Write\<close> call with the output and a newline, and
  \<^verbatim>\<open>Log\<close> drops what it returns. The result is the logger and the sink after the call, or
  the panic that ended it.
\<close>

definition Log ::
  "Env \<Rightarrow> frame list \<Rightarrow> 'w Logger \<Rightarrow> LogLevel \<Rightarrow> string \<Rightarrow> LogFields \<Rightarrow> 'w
     \<Rightarrow> error + ('w Logger \<times> 'w)" where
  "Log env callers l lv msg flds w =
     (if lv < level l then Inr (l, w)
      else
        let flds =
              (if CallerInfo flds = [] then
                 (case Caller 2 ((srcFile env, 96) # callers) of (file, line, ok) \<Rightarrow>
                    let fileParts = Split file CHR ''/'';
                        fileParts =
                          (if length fileParts > 3
                           then drop (length fileParts - 3) fileParts
                           else fileParts)
                    in flds\<lparr>CallerInfo := Join fileParts ''/'' @ '':'' @ Itoa line\<rparr>)
               else flds);
            msg = ReplaceAll msg LF '' ''
        in case formatter l env lv msg flds of
             Inl e \<Rightarrow> Inl e
           | Inr output \<Rightarrow>
               let output = (if \<not> color l then stripColors output else output)
               in (case out l (output @ [LF]) w of (w', err) \<Rightarrow> Inr (l, w')))"

text \<open>
  \<^verbatim>\<open>LogCtx\<close> (its call of \<^verbatim>\<open>Log\<close> is line 117) and the instance methods (lines 67,
  70, 73 and 76): each calls \<^verbatim>\<open>Log\<close> from its own frame. \<open>callers\<close> is the stack above
  the method.
\<close>

definition LogCtx ::
  "Env \<Rightarrow> frame list \<Rightarrow> 'w Logger \<Rightarrow> 'ctx \<Rightarrow> LogLevel \<Rightarrow> string \<Rightarrow> LogFields \<Rightarrow> 'w
     \<Rightarrow> error + ('w Logger \<times> 'w)" where
  "LogCtx env callers l ctx lv msg flds w =
     Log env ((srcFile env, 117) # callers) l lv msg flds w"

definition Debug ::
  "Env \<Rightarrow> frame list \<Rightarrow> 'w Logger \<Rightarrow> string \<Rightarrow> LogFields \<Rightarrow> 'w \<Rightarrow> error + ('w Logger \<times> 'w)" where
  "Debug env callers l msg flds w =
     Log env ((srcFile env, 67) # callers) l LevelDebug msg flds w"

definition Info ::
  "Env \<Rightarrow> frame list \<Rightarrow> 'w Logger \<Rightarrow> string \<Rightarrow> LogFields \<Rightarrow> 'w \<Rightarrow> error + ('w Logger \<times> 'w)" where
  "Info env callers l msg flds w =
     Log env ((srcFile env, 70) # callers) l LevelInfo msg flds w"

definition Warn ::
  "Env \<Rightarrow> frame list \<Rightarrow> 'w Logger \<Rightarrow> string \<Rightarrow> LogFields \<Rightarrow> 'w \<Rightarrow> error + ('w Logger \<times> 'w)" where
  "Warn env callers l msg flds w =
     Log env ((srcFile env, 73) # callers) l LevelWarn msg flds w"

definition Error ::
  "Env \<Rightarrow> frame list \<Rightarrow> 'w Logger \<Rightarrow> string \<Rightarrow> LogFields \<Rightarrow> 'w \<Rightarrow> error + ('w Logger \<times> 'w)" where
  "Error env callers l msg flds w =
     Log env ((srcFile env, 76) # callers) l LevelError msg flds w"

text \<open>
  Two sinks for concrete runs: a \<^verbatim>\<open>bytes.Buffer\<close>, whose \<^verbatim>\<open>Write\<close> appends and never
  fails, and a writer that fails every \<^verbatim>\<open>Write\<close> and stores nothing.
\<close>

definition bufferWrite :: "string Writer" where
  "bufferWrite p buf = (buf @ p, None)"

definition failingWrite :: "string Writer" where
  "failingWrite p buf = (buf, Some (WriteError ''closed''))"

subsection \<open>Names for the steps of Log\<close>

text \<open>
  \<open>captured callers\<close> is the frame \<^verbatim>\<open>runtime.Caller(2)\<close> reports inside \<^verbatim>\<open>Log\<close>: the
  second entry above \<^verbatim>\<open>Log\<close>, or the zero values when the stack is too short.
  \<open>shortPath\<close> keeps the last three of the slash-separated parts of a file name, and
  \<open>fillCaller\<close> is lines 95 to 102 of logger.go. The lemma \<open>Log_unfold\<close> below states
  \<^verbatim>\<open>Log\<close> in these terms.
\<close>

definition captured :: "frame list \<Rightarrow> string \<times> int" where
  "captured callers = (if 1 < length callers then callers ! 1 else ([], 0))"

definition shortPath :: "string \<Rightarrow> string" where
  "shortPath file =
     (let ps = Split file CHR ''/''
      in Join (if 3 < length ps then drop (length ps - 3) ps else ps) ''/'')"

definition fillCaller :: "frame list \<Rightarrow> LogFields \<Rightarrow> LogFields" where
  "fillCaller callers flds =
     (if CallerInfo flds = []
      then flds\<lparr>CallerInfo :=
             shortPath (fst (captured callers)) @ '':'' @ Itoa (snd (captured callers))\<rparr>
      else flds)"

subsection \<open>Predicates and shapes used in the statements\<close>

text \<open>
  \<open>isDigit\<close> is a decimal digit. \<open>rfc3339\<close> is the shape of a string in Go's layout
  \<^verbatim>\<open>time.RFC3339\<close> (\<^verbatim>\<open>2006-01-02T15:04:05Z07:00\<close>): in a shape, \<open>d\<close> stands for a digit
  and every other character for itself. \<open>lineGroups\<close> is the text line as section 4.2 of
  the specification describes it, as a list of coloured groups: the level in brackets,
  the timestamp, the optional groups, and dash, message, dash, caller info.
\<close>

definition isDigit :: "char \<Rightarrow> bool" where
  "isDigit c = (c \<in> set ''0123456789'')"

definition matchesShape :: "string \<Rightarrow> string \<Rightarrow> bool" where
  "matchesShape shape s = list_all2 (\<lambda>t c. if t = CHR ''d'' then isDigit c else c = t) shape s"

definition rfc3339 :: "string \<Rightarrow> bool" where
  "rfc3339 s =
     (matchesShape ''dddd-dd-ddTdd:dd:ddZ'' s \<or>
      matchesShape ''dddd-dd-ddTdd:dd:dd+dd:dd'' s \<or>
      matchesShape ''dddd-dd-ddTdd:dd:dd-dd:dd'' s)"

definition lineGroups ::
  "string \<Rightarrow> Attribute \<Rightarrow> string \<Rightarrow> string \<Rightarrow> LogFields \<Rightarrow> (Attribute \<times> string) list" where
  "lineGroups levelStr levelColor timestamp message flds =
     [(levelColor, ''['' @ levelStr @ '']''), (FgHiWhite, timestamp)] @
     (if Method flds \<noteq> [] \<and> Path flds \<noteq> []
      then [(FgHiBlue, Method flds @ '' '' @ Path flds)] else []) @
     (if Status flds \<noteq> [] then [(FgHiGreen, Status flds)] else []) @
     (if Size flds \<noteq> [] then [(FgHiYellow, Size flds)] else []) @
     (if Latency flds \<noteq> [] then [(FgHiMagenta, Latency flds)] else []) @
     [(FgHiWhite, ''-''), (FgCyan, message), (FgHiWhite, ''-''), (FgHiBlue, CallerInfo flds)]"



text \<open>
  \<open>declaredFields\<close> lists the fields of a \<^verbatim>\<open>LogFields\<close> in the order of the declaration,
  each under the key of its \<^verbatim>\<open>json\<close> tag. \<open>escFree s\<close>: the string has no ESC byte;
  \<open>escFreeFields\<close>: no field of the record has one.
\<close>

definition declaredFields :: "LogFields \<Rightarrow> (string \<times> string) list" where
  "declaredFields f =
     [(''method'', Method f), (''path'', Path f), (''status'', Status f), (''size'', Size f),
      (''latency'', Latency f), (''caller_info'', CallerInfo f)]"

definition escFree :: "string \<Rightarrow> bool" where
  "escFree s = (ESC \<notin> set s)"

definition escFreeFields :: "LogFields \<Rightarrow> bool" where
  "escFreeFields flds =
     (escFree (Method flds) \<and> escFree (Path flds) \<and> escFree (Status flds) \<and>
      escFree (Size flds) \<and> escFree (Latency flds) \<and> escFree (CallerInfo flds))"

subsection \<open>UTF-8 sequences\<close>

text \<open>
  \<open>coerceUTF8\<close> is what Go's conversion to valid UTF-8 does to a string
  (\<^verbatim>\<open>strings.ToValidUTF8\<close> with U+FFFD for every single offending byte, which is also how
  \<^verbatim>\<open>range\<close> over a string reads it): each byte that starts no well-formed sequence
  becomes the three bytes of U+FFFD, and well-formed sequences are kept. \<open>validUTF8\<close> is
  \<^verbatim>\<open>utf8.ValidString\<close>. \<open>multiByte s\<close> says that \<open>s\<close> starts with a well-formed sequence of
  two to four bytes, and \<open>runeOf s\<close> is the code point of that sequence.
\<close>

function coerceUTF8 :: "string \<Rightarrow> string" where
  "coerceUTF8 [] = []"
| "coerceUTF8 (b # bs) =
     (case DecodeRuneInString (b # bs) of (c, n) \<Rightarrow>
        if c = RuneError \<and> n = 1 then [CHR 0xEF, CHR 0xBF, CHR 0xBD] @ coerceUTF8 bs
        else take n (b # bs) @ coerceUTF8 (drop n (b # bs)))"
  by pat_completeness auto
termination
  by (relation "measure length") (auto dest: DecodeRuneInString_Cons_pos)

declare coerceUTF8.simps [simp del]

function validUTF8 :: "string \<Rightarrow> bool" where
  "validUTF8 [] = True"
| "validUTF8 (b # bs) =
     (case DecodeRuneInString (b # bs) of (c, n) \<Rightarrow>
        \<not> (c = RuneError \<and> n = 1) \<and> validUTF8 (drop n (b # bs)))"
  by pat_completeness auto
termination
  by (relation "measure length") (auto dest: DecodeRuneInString_Cons_pos)

declare validUTF8.simps [simp del]

definition runeOf :: "string \<Rightarrow> nat" where
  "runeOf s =
     (let s0 = of_char (s ! 0) :: nat; sz = runeSize s0 in
      if sz \<le> 2 then s0 mod 32 * 64 + of_char (s ! 1) mod 64
      else if sz \<le> 3
        then s0 mod 16 * 4096 + of_char (s ! 1) mod 64 * 64 + of_char (s ! 2) mod 64
      else s0 mod 8 * 262144 + of_char (s ! 1) mod 64 * 4096 + of_char (s ! 2) mod 64 * 64 +
           of_char (s ! 3) mod 64)"

definition multiByte :: "string \<Rightarrow> bool" where
  "multiByte s =
     (let s0 = of_char (s ! 0) :: nat; sz = runeSize s0 in
      2 \<le> sz \<and> sz \<le> length s \<and>
      acceptLo s0 \<le> of_char (s ! 1) \<and> (of_char (s ! 1) :: nat) \<le> acceptHi s0 \<and>
      (sz \<le> 2 \<or> (0x80 \<le> (of_char (s ! 2) :: nat) \<and> (of_char (s ! 2) :: nat) \<le> 0xBF)) \<and>
      (sz \<le> 3 \<or> (0x80 \<le> (of_char (s ! 3) :: nat) \<and> (of_char (s ! 3) :: nat) \<le> 0xBF)))"

subsection \<open>JSON texts and their values\<close>

text \<open>
  The reading of a JSON text, after RFC 8259, for the texts that consist of strings and
  objects and have no insignificant white space: \<open>parseJSON\<close> returns the value of such a
  text, \<open>None\<close> for any other string. Every string it accepts is a JSON text. A value is
  a string (its bytes, in UTF-8) or an object (its members in the order of the text).
  \<open>parseChars\<close> reads the characters of a string up to the closing quote: an unescaped
  character must be a well-formed UTF-8 sequence other than a control character, the quote
  and the backslash, and an escape is one of the two-character escapes or \<^verbatim>\<open>\uXXXX\<close>
  with four hexadecimal digits, read as a code point of the basic plane (surrogates are not
  accepted). \<open>parseValue\<close> and \<open>parseMembers\<close> carry a bound on the depth of the recursion;
  \<open>parseJSON\<close> takes the length of the text, which is enough for every text.
\<close>

datatype json = JString string | JObject "(string \<times> json) list"

definition hexVal :: "char \<Rightarrow> nat option" where
  "hexVal c =
     (let x = of_char c :: nat in
      if 0x30 \<le> x \<and> x \<le> 0x39 then Some (x - 0x30)
      else if 0x61 \<le> x \<and> x \<le> 0x66 then Some (x - 0x61 + 10)
      else if 0x41 \<le> x \<and> x \<le> 0x46 then Some (x - 0x41 + 10)
      else None)"

definition hex4 :: "char \<Rightarrow> char \<Rightarrow> char \<Rightarrow> char \<Rightarrow> nat option" where
  "hex4 a b c d =
     (case (hexVal a, hexVal b, hexVal c, hexVal d) of
        (Some p, Some q, Some r, Some s) \<Rightarrow> Some (p * 4096 + q * 256 + r * 16 + s)
      | _ \<Rightarrow> None)"

definition utf8Encode :: "nat \<Rightarrow> string" where
  "utf8Encode cp =
     (if cp < 0x80 then [char_of cp]
      else if cp < 0x800 then [char_of (0xC0 + cp div 64), char_of (0x80 + cp mod 64)]
      else [char_of (0xE0 + cp div 4096), char_of (0x80 + cp div 64 mod 64),
            char_of (0x80 + cp mod 64)])"

definition unescape :: "char \<Rightarrow> char option" where
  "unescape e =
     (if e = DQ \<or> e = BSL \<or> e = CHR ''/'' then Some e
      else if e = CHR ''b'' then Some (CHR 0x08)
      else if e = CHR ''f'' then Some (CHR 0x0C)
      else if e = CHR ''n'' then Some LF
      else if e = CHR ''r'' then Some (CHR 0x0D)
      else if e = CHR ''t'' then Some (CHR 0x09)
      else None)"

function parseChars :: "string \<Rightarrow> (string \<times> string) option" where
  "parseChars [] = None"
| "parseChars (c # cs) =
     (if c = DQ then Some ([], cs)
      else if c = BSL then
        (case cs of
           [] \<Rightarrow> None
         | e # r \<Rightarrow>
             if e = CHR ''u'' then
               (case r of
                  h1 # h2 # h3 # h4 # r' \<Rightarrow>
                    (case hex4 h1 h2 h3 h4 of
                       None \<Rightarrow> None
                     | Some cp \<Rightarrow>
                         if 0xD800 \<le> cp \<and> cp \<le> 0xDFFF then None
                         else map_option (\<lambda>(s, rest). (utf8Encode cp @ s, rest)) (parseChars r'))
                | _ \<Rightarrow> None)
             else
               (case unescape e of
                  None \<Rightarrow> None
                | Some b \<Rightarrow> map_option (\<lambda>(s, rest). (b # s, rest)) (parseChars r)))
      else if (of_char c :: nat) < 0x20 then None
      else if (of_char c :: nat) < 0x80
        then map_option (\<lambda>(s, rest). (c # s, rest)) (parseChars cs)
      else
        (case DecodeRuneInString (c # cs) of (r, n) \<Rightarrow>
           if r = RuneError \<and> n = 1 then None
           else map_option (\<lambda>(s, rest). (take n (c # cs) @ s, rest))
                  (parseChars (drop n (c # cs)))))"
  by pat_completeness auto
termination
  by (relation "measure length") (auto dest: DecodeRuneInString_Cons_pos)

declare parseChars.simps [simp del]

fun parseValue :: "nat \<Rightarrow> string \<Rightarrow> (json \<times> string) option"
  and parseMembers :: "nat \<Rightarrow> string \<Rightarrow> ((string \<times> json) list \<times> string) option" where
  "parseValue 0 s = None"
| "parseValue (Suc n) s =
     (case s of
        [] \<Rightarrow> None
      | c # r \<Rightarrow>
          if c = DQ then map_option (\<lambda>(str, rest). (JString str, rest)) (parseChars r)
          else if c = CHR ''{'' then
            (case r of
               [] \<Rightarrow> None
             | d # r' \<Rightarrow>
                 if d = CHR ''}'' then Some (JObject [], r')
                 else map_option (\<lambda>(ms, rest). (JObject ms, rest)) (parseMembers n r))
          else None)"
| "parseMembers 0 s = None"
| "parseMembers (Suc n) s =
     (case s of
        [] \<Rightarrow> None
      | q # r \<Rightarrow>
          if q \<noteq> DQ then None
          else
            (case parseChars r of
               None \<Rightarrow> None
             | Some (k, r1) \<Rightarrow>
                 (case r1 of
                    [] \<Rightarrow> None
                  | col # r2 \<Rightarrow>
                      if col \<noteq> CHR '':'' then None
                      else
                        (case parseValue n r2 of
                           None \<Rightarrow> None
                         | Some (v, r3) \<Rightarrow>
                             (case r3 of
                                [] \<Rightarrow> None
                              | x # r4 \<Rightarrow>
                                  if x = CHR '','' then
                                    map_option (\<lambda>(ms, rest). ((k, v) # ms, rest))
                                      (parseMembers n r4)
                                  else if x = CHR ''}'' then Some ([(k, v)], r4)
                                  else None)))))"

definition parseJSON :: "string \<Rightarrow> json option" where
  "parseJSON s = (case parseValue (length s) s of Some (v, []) \<Rightarrow> Some v | _ \<Rightarrow> None)"

subsection \<open>Values for concrete runs\<close>

text \<open>
  A clock reading, a process whose standard output is no terminal (\<open>exampleTTY\<close>: the
  same on a terminal), and a stack: the call at line 12 of the application's main.go, made from the Go runtime. \<open>testLogger\<close> is
  the logger of the repository's test \<^verbatim>\<open>TestLogLevelFiltering\<close>.
\<close>

definition exampleEnv :: Env where
  "exampleEnv =
     \<lparr>now = ''2025-06-14T12:30:25Z'', NoColor = True,
      srcFile = ''/go/pkg/mod/github.com/KOFI-GYIMAH/go-logger/logger/logger.go'',
      shortEscapes = True\<rparr>"

definition exampleTTY :: Env where
  "exampleTTY = exampleEnv\<lparr>NoColor := False\<rparr>"

definition exampleStack :: "frame list" where
  "exampleStack =
     [(''/srv/app/cmd/main.go'', 12), (''/usr/local/go/src/runtime/proc.go'', 283)]"

definition testLogger :: "string Logger" where
  "testLogger = SetLevel LevelError (SetOutput bufferWrite (NewLogger bufferWrite ''test''))"

section \<open>Properties of the string helpers\<close>

lemma Split_Nil: "dropWhile (\<lambda>c. c \<noteq> sep) s = [] \<Longrightarrow> Split s sep = [s]"
proof -
  assume a: "dropWhile (\<lambda>c. c \<noteq> sep) s = []"
  show ?thesis by (subst Split.simps) (simp only: a list.case)
qed

lemma Split_Cons:
  "dropWhile (\<lambda>c. c \<noteq> sep) s = x # rest \<Longrightarrow>
   Split s sep = takeWhile (\<lambda>c. c \<noteq> sep) s # Split rest sep"
proof -
  assume a: "dropWhile (\<lambda>c. c \<noteq> sep) s = x # rest"
  show ?thesis by (subst Split.simps) (simp only: a list.case)
qed

lemma Split_nonempty: "Split s sep \<noteq> []"
proof (cases "dropWhile (\<lambda>c. c \<noteq> sep) s")
  case Nil
  show ?thesis unfolding Split_Nil [OF Nil] by simp
next
  case (Cons x rest)
  show ?thesis unfolding Split_Cons [OF Cons] by simp
qed

lemma Join_Cons: "ps \<noteq> [] \<Longrightarrow> Join (a # ps) sep = a @ sep @ Join ps sep"
  by (cases ps) simp_all

lemma Join_append:
  "xs \<noteq> [] \<Longrightarrow> ys \<noteq> [] \<Longrightarrow> Join (xs @ ys) sep = Join xs sep @ sep @ Join ys sep"
proof (induction xs)
  case Nil
  then show ?case by simp
next
  case (Cons a xs)
  show ?case
  proof (cases xs)
    case Nil
    then show ?thesis using Cons.prems by (simp add: Join_Cons)
  next
    case (Cons b r)
    then have "Join (xs @ ys) sep = Join xs sep @ sep @ Join ys sep"
      using Cons.IH Cons.prems by simp
    then show ?thesis using Cons by simp
  qed
qed

lemma Join_Split: "Join (Split s sep) [sep] = s"
proof (induction s sep rule: Split.induct)
  case (1 s sep)
  show ?case
  proof (cases "dropWhile (\<lambda>c. c \<noteq> sep) s")
    case Nil
    show ?thesis unfolding Split_Nil [OF Nil] by simp
  next
    case (Cons x rest)
    have x: "x = sep" using hd_dropWhile [of "\<lambda>c. c \<noteq> sep" s] Cons by simp
    have "takeWhile (\<lambda>c. c \<noteq> sep) s @ dropWhile (\<lambda>c. c \<noteq> sep) s = s"
      by (rule takeWhile_dropWhile_id)
    then have s: "takeWhile (\<lambda>c. c \<noteq> sep) s @ sep # rest = s" unfolding Cons x .
    have ih: "Join (Split rest sep) [sep] = rest" by (rule 1 [OF Cons])
    have "Join (Split s sep) [sep] =
        takeWhile (\<lambda>c. c \<noteq> sep) s @ [sep] @ Join (Split rest sep) [sep]"
      unfolding Split_Cons [OF Cons] by (rule Join_Cons [OF Split_nonempty])
    then show ?thesis unfolding ih using s by simp
  qed
qed





section \<open>Properties of stripColors\<close>

text \<open>
  \<open>match_csi\<close> recognises exactly the strings that start with a word of the pattern, and
  \<open>hasCSI\<close> the strings that have such a word as a substring.
\<close>

lemma match_csi_iff:
  "match_csi s = Some r \<longleftrightarrow>
     (\<exists>ps f. s = ESC # CHR ''['' # ps @ f # r \<and> (\<forall>p \<in> set ps. is_param p) \<and> is_final f)"
proof
  assume "match_csi s = Some r"
  then obtain t f where s: "s = ESC # CHR ''['' # t" and d: "dropWhile is_param t = f # r"
    and f: "is_final f"
    unfolding match_csi_def by (auto split: list.splits if_splits)
  have "t = takeWhile is_param t @ f # r" using d by (metis takeWhile_dropWhile_id)
  moreover have "\<forall>p \<in> set (takeWhile is_param t). is_param p" by (auto dest: set_takeWhileD)
  ultimately show "\<exists>ps f. s = ESC # CHR ''['' # ps @ f # r \<and> (\<forall>p \<in> set ps. is_param p) \<and> is_final f"
    using s f by blast
next
  assume "\<exists>ps f. s = ESC # CHR ''['' # ps @ f # r \<and> (\<forall>p \<in> set ps. is_param p) \<and> is_final f"
  then obtain ps f where s: "s = ESC # CHR ''['' # ps @ f # r"
    and ps: "\<forall>p \<in> set ps. is_param p" and f: "is_final f" by blast
  have nf: "\<not> is_param f" using f by (auto simp: is_param_def is_final_def)
  have "dropWhile is_param (ps @ f # r) = f # r" using ps nf by (simp add: dropWhile_append)
  then show "match_csi s = Some r" using s f by (simp add: match_csi_def)
qed

lemma hasCSI_iff:
  "hasCSI s \<longleftrightarrow> (\<exists>u v r. s = u @ v \<and> match_csi v = Some r)"
proof (induction s)
  case Nil
  show ?case by (simp add: match_csi_def)
next
  case (Cons c cs)
  show ?case
  proof
    assume "hasCSI (c # cs)"
    then consider "match_csi (c # cs) \<noteq> None" | "hasCSI cs" by auto
    then show "\<exists>u v r. c # cs = u @ v \<and> match_csi v = Some r"
    proof cases
      case 1
      then obtain r where "match_csi (c # cs) = Some r" by auto
      then have "c # cs = [] @ (c # cs) \<and> match_csi (c # cs) = Some r" by simp
      then show ?thesis by blast
    next
      case 2
      then obtain u v r where "cs = u @ v" "match_csi v = Some r" using Cons.IH by blast
      then have "c # cs = (c # u) @ v \<and> match_csi v = Some r" by simp
      then show ?thesis by blast
    qed
  next
    assume "\<exists>u v r. c # cs = u @ v \<and> match_csi v = Some r"
    then obtain u v r where uv: "c # cs = u @ v" and m: "match_csi v = Some r" by blast
    show "hasCSI (c # cs)"
    proof (cases u)
      case Nil
      then have "v = c # cs" using uv by simp
      then show ?thesis using m by simp
    next
      case (Cons a u')
      then have "cs = u' @ v" using uv by simp
      then have "hasCSI cs" using m Cons.IH by blast
      then show ?thesis by simp
    qed
  qed
qed

lemma stripColors_no_CSI: "\<not> hasCSI s \<Longrightarrow> stripColors s = s"
  by (induction s) auto

lemma length_stripColors: "length (stripColors s) \<le> length s"
proof (induction s rule: stripColors.induct)
  case 1
  show ?case by simp
next
  case (2 c cs)
  show ?case
  proof (cases "match_csi (c # cs)")
    case None
    then show ?thesis using 2 by simp
  next
    case (Some r)
    then have "length (stripColors r) \<le> length r" using 2 by simp
    moreover have "length r < length (c # cs)" using Some by (rule match_csi_shorter)
    ultimately show ?thesis using Some by simp
  qed
qed

lemma stripColors_shrinks: "hasCSI s \<Longrightarrow> length (stripColors s) < length s"
proof (induction s)
  case Nil
  then show ?case by simp
next
  case (Cons c cs)
  show ?case
  proof (cases "match_csi (c # cs)")
    case None
    then have "hasCSI cs" using Cons.prems by simp
    then show ?thesis using None Cons.IH by simp
  next
    case (Some r)
    have "length (stripColors r) \<le> length r" by (rule length_stripColors)
    moreover have "length r < length (c # cs)" using Some by (rule match_csi_shorter)
    ultimately show ?thesis using Some by simp
  qed
qed

text \<open>
  What one pass leaves: nothing that was not there before, and no ESC byte when every
  ESC byte of the argument begins a match.
\<close>

lemma escapesMatch_suffix: "escapesMatch (u @ v) \<Longrightarrow> escapesMatch v"
  by (induction u) auto

lemma match_csi_suffix: "match_csi s = Some r \<Longrightarrow> \<exists>u. s = u @ r"
proof -
  assume "match_csi s = Some r"
  then obtain ps f where "s = ESC # CHR ''['' # ps @ f # r" unfolding match_csi_iff by blast
  then have "s = (ESC # CHR ''['' # ps @ [f]) @ r" by simp
  then show ?thesis by blast
qed

lemma stripColors_no_ESC: "escapesMatch s \<Longrightarrow> ESC \<notin> set (stripColors s)"
proof (induction s rule: stripColors.induct)
  case 1
  show ?case by simp
next
  case (2 c cs)
  show ?case
  proof (cases "match_csi (c # cs)")
    case None
    then have "c \<noteq> ESC" "escapesMatch cs" using "2.prems" by auto
    then show ?thesis using None "2.IH" by simp
  next
    case (Some r)
    then obtain u where "c # cs = u @ r" using match_csi_suffix by blast
    then have "escapesMatch r" using "2.prems" escapesMatch_suffix by metis
    then show ?thesis using Some "2.IH" by simp
  qed
qed


lemma stripColors_match: "match_csi v = Some r \<Longrightarrow> stripColors v = stripColors r"
  by (cases v) (simp_all add: match_csi_def)

section \<open>Properties of Log\<close>

lemma Caller_2_captured:
  "Caller 2 (here # callers) =
     (fst (captured callers), snd (captured callers), 1 < length callers)"
  by (simp add: Caller_def captured_def)

lemma Log_unfold:
  "Log env callers l lv msg flds w =
     (if lv < level l then Inr (l, w)
      else case formatter l env lv (ReplaceAll msg LF '' '') (fillCaller callers flds) of
             Inl e \<Rightarrow> Inl e
           | Inr output \<Rightarrow>
               Inr (l, fst (out l ((if color l then output else stripColors output) @ [LF]) w)))"
proof (cases "lv < level l")
  case True
  then show ?thesis by (simp add: Log_def)
next
  case False
  have f: "(if CallerInfo flds = [] then
              (case Caller 2 ((srcFile env, 96) # callers) of (file, line, ok) \<Rightarrow>
                 let fileParts = Split file CHR ''/'';
                     fileParts =
                       (if length fileParts > 3
                        then drop (length fileParts - 3) fileParts
                        else fileParts)
                 in flds\<lparr>CallerInfo := Join fileParts ''/'' @ '':'' @ Itoa line\<rparr>)
            else flds) = fillCaller callers flds"
    unfolding Caller_2_captured fillCaller_def shortPath_def Let_def by simp
  have o: "\<And>p. (case out l p w of (w', err) \<Rightarrow> Inr (l, w')) =
      (Inr (l, fst (out l p w)) :: error + ('a Logger \<times> 'a))"
    by (simp add: case_prod_beta)
  have "Log env callers l lv msg flds w =
      (let flds = fillCaller callers flds; msg = ReplaceAll msg LF '' ''
       in case formatter l env lv msg flds of
            Inl e \<Rightarrow> Inl e
          | Inr output \<Rightarrow>
              let output = (if \<not> color l then stripColors output else output)
              in (case out l (output @ [LF]) w of (w', err) \<Rightarrow> Inr (l, w')))"
    using False by (simp only: Log_def f if_False)
  then show ?thesis using False
    by (cases "color l") (simp_all only: Let_def o if_False if_True not_True_eq_False not_False_eq_True)
qed

lemma ReplaceAll_map:
  "ReplaceAll s old [new] = map (\<lambda>c. if c = old then new else c) s"
  by (induction s) simp_all

lemma levelStyle_levels: "lv \<in> set levels \<Longrightarrow> \<exists>s a. levelStyle lv = Some (s, a)"
  by (auto simp: levels_def levelStyle_def)

lemma defaultFormatter_returns:
  "lv \<in> set levels \<Longrightarrow> \<exists>r. defaultFormatter env lv m f = Inr r"
  by (auto simp: defaultFormatter_def Let_def dest!: levelStyle_levels)

lemma JSONFormatter_returns: "\<exists>r. JSONFormatter env lv m f = Inr r"
  by (simp add: JSONFormatter_def)

lemma Log_keeps_logger:
  "Log env callers l lv msg flds w = Inr (l', w') \<Longrightarrow> l' = l"
  by (simp add: Log_unfold split: if_splits sum.splits)

lemma ReplaceAll_no_old: "old \<noteq> new \<Longrightarrow> old \<notin> set (ReplaceAll s old [new])"
  by (induction s) simp_all

lemma shortPath_drop:
  "shortPath file =
     Join (drop (length (Split file CHR ''/'') - 3) (Split file CHR ''/'')) ''/''"
  by (simp add: shortPath_def Let_def)



lemma shortPath_suffix: "suffix (shortPath file) file"
proof -
  let ?ps = "Split file CHR ''/''"
  let ?k = "length ?ps - 3"
  have ne: "?ps \<noteq> []" by (rule Split_nonempty)
  then have d: "drop ?k ?ps \<noteq> []" by (cases ?ps) auto
  have fj: "file = Join ?ps ''/''" by (simp add: Join_Split)
  show ?thesis
  proof (cases "take ?k ?ps = []")
    case True
    then have "drop ?k ?ps = ?ps" by (metis append_Nil append_take_drop_id)
    then have "shortPath file = file" unfolding shortPath_drop using fj by simp
    then show ?thesis by simp
  next
    case False
    have "Join ?ps ''/'' = Join (take ?k ?ps @ drop ?k ?ps) ''/''" by simp
    also have "\<dots> = Join (take ?k ?ps) ''/'' @ ''/'' @ Join (drop ?k ?ps) ''/''"
      using False d by (rule Join_append)
    finally have "file = (Join (take ?k ?ps) ''/'' @ ''/'') @ shortPath file"
      unfolding shortPath_drop using fj by simp
    then show ?thesis unfolding suffix_def by blast
  qed
qed

lemma shortPath_short:
  "length (Split file CHR ''/'') \<le> 3 \<Longrightarrow> shortPath file = file"
  by (simp add: shortPath_def Let_def Join_Split)



lemma captured_Cons: "captured (fr # callers) = (if callers = [] then ([], 0) else hd callers)"
  by (cases callers) (simp_all add: captured_def)

section \<open>Properties of the text formatter\<close>

lemma defaultFormatter_groups:
  "levelStyle lv = Some (ls, lc) \<Longrightarrow>
   defaultFormatter env lv m f =
     Inr (Join (map (\<lambda>(a, t). Sprint env a t) (lineGroups ls lc (now env) m f)) '' '')"
  by (simp add: defaultFormatter_def lineGroups_def Let_def)

lemma digit_is_digit: "d < 10 \<Longrightarrow> isDigit (digit d)"
proof -
  assume "d < 10"
  then have "d < length ''0123456789''" by simp
  then show ?thesis unfolding digit_def isDigit_def by (rule nth_mem)
qed

lemma decimal_chars: "c \<in> set (decimal n) \<Longrightarrow> isDigit c"
proof (induction n rule: decimal.induct)
  case (1 n)
  show ?case
  proof (cases "n < 10")
    case True
    then have "decimal n = [digit n]" by (subst decimal.simps) simp
    then show ?thesis using "1.prems" True digit_is_digit by simp
  next
    case False
    then have "decimal n = decimal (n div 10) @ [digit (n mod 10)]"
      by (subst decimal.simps) simp
    then have "c \<in> set (decimal (n div 10)) \<or> c = digit (n mod 10)"
      using "1.prems" by auto
    moreover have "isDigit (digit (n mod 10))" by (rule digit_is_digit) simp
    ultimately show ?thesis using "1.IH" [OF False] by blast
  qed
qed

lemma decimal_nonempty: "decimal n \<noteq> []"
  by (subst decimal.simps) simp

lemma Itoa_chars: "c \<in> set (Itoa i) \<Longrightarrow> c = CHR ''-'' \<or> isDigit c"
proof (cases "i < 0")
  case True
  assume "c \<in> set (Itoa i)"
  then have "c = CHR ''-'' \<or> c \<in> set (decimal (nat (- i)))"
    using True by (simp add: Itoa_def)
  then show ?thesis using decimal_chars by blast
next
  case False
  assume "c \<in> set (Itoa i)"
  then have "c \<in> set (decimal (nat i))" using False by (simp add: Itoa_def)
  then show ?thesis using decimal_chars by blast
qed

lemma match_csi_not_ESC: "c \<noteq> ESC \<Longrightarrow> match_csi (c # cs) = None"
  by (cases cs) (simp_all add: match_csi_def)

lemma stripColors_plain: "ESC \<notin> set s \<Longrightarrow> stripColors (s @ t) = s @ stripColors t"
proof (induction s)
  case Nil
  show ?case by simp
next
  case (Cons c s)
  then have "c \<noteq> ESC" by auto
  then have "match_csi (c # s @ t) = None" by (rule match_csi_not_ESC)
  then show ?case using Cons by simp
qed

lemma no_ESC_no_CSI: "ESC \<notin> set s \<Longrightarrow> \<not> hasCSI s"
proof (induction s)
  case Nil
  show ?case by simp
next
  case (Cons c s)
  then have "c \<noteq> ESC" by auto
  then have "match_csi (c # s) = None" by (rule match_csi_not_ESC)
  then show ?case using Cons by simp
qed

lemma digit_is_param: "isDigit c \<Longrightarrow> is_param c"
  unfolding is_param_def isDigit_def by (simp only: set_simps insert_iff) blast

lemma dropWhile_params: "\<forall>p \<in> set ps. is_param p \<Longrightarrow>
   dropWhile is_param (ps @ CHR ''m'' # t) = CHR ''m'' # t"
proof -
  assume "\<forall>p \<in> set ps. is_param p"
  moreover have "\<not> is_param CHR ''m''" by (simp add: is_param_def)
  ultimately show ?thesis by (simp add: dropWhile_append)
qed

lemma stripColors_code:
  "\<forall>p \<in> set ps. is_param p \<Longrightarrow>
   stripColors ([ESC, CHR ''[''] @ ps @ ''m'' @ t) = stripColors t"
proof -
  assume "\<forall>p \<in> set ps. is_param p"
  then have d: "dropWhile is_param (ps @ CHR ''m'' # t) = CHR ''m'' # t"
    by (rule dropWhile_params)
  have "is_final CHR ''m''" by (simp add: is_final_def)
  then have "match_csi (ESC # CHR ''['' # ps @ CHR ''m'' # t) = Some t"
    by (simp add: match_csi_def d)
  then show ?thesis by simp
qed

lemma stripColors_Sprint:
  "ESC \<notin> set s \<Longrightarrow> stripColors (Sprint env a s @ t) = s @ stripColors t"
proof (cases "NoColor env")
  case True
  assume "ESC \<notin> set s"
  then show ?thesis using True by (simp add: Sprint_def stripColors_plain)
next
  case False
  assume s: "ESC \<notin> set s"
  have "\<forall>p \<in> set ''0''. is_param p" by (simp add: is_param_def)
  from stripColors_code [OF this, of t]
  have r: "stripColors ([ESC] @ ''[0m'' @ t) = stripColors t" by simp
  have "Sprint env a s @ t =
      [ESC, CHR ''[''] @ decimal (attrCode a) @ ''m'' @ (s @ [ESC] @ ''[0m'' @ t)"
    using False by (simp add: Sprint_def)
  then have "stripColors (Sprint env a s @ t) = stripColors (s @ [ESC] @ ''[0m'' @ t)"
    using stripColors_code [of "decimal (attrCode a)"] decimal_chars digit_is_param
    by (metis (no_types, lifting))
  also have "\<dots> = s @ stripColors ([ESC] @ ''[0m'' @ t)" using s by (rule stripColors_plain)
  finally show ?thesis unfolding r .
qed

lemma stripColors_groups:
  "\<forall>g \<in> set gs. ESC \<notin> set (snd g) \<Longrightarrow>
   stripColors (Join (map (\<lambda>(a, t). Sprint env a t) gs) '' '' @ r) =
     Join (map snd gs) '' '' @ stripColors r"
proof (induction gs)
  case Nil
  then show ?case by simp
next
  case (Cons g gs)
  obtain a t where g: "g = (a, t)" by (cases g)
  have t: "ESC \<notin> set t" using Cons.prems g by simp
  show ?case
  proof (cases gs)
    case Nil
    then show ?thesis using g t by (simp add: stripColors_Sprint)
  next
    case (Cons g' gs')
    have ih: "stripColors (Join (map (\<lambda>(a, t). Sprint env a t) gs) '' '' @ r) =
        Join (map snd gs) '' '' @ stripColors r"
      using Cons.IH Cons.prems by simp
    have "stripColors (Join (map (\<lambda>(a, t). Sprint env a t) (g # gs)) '' '' @ r) =
        stripColors (Sprint env a t @ ('' '' @ Join (map (\<lambda>(a, t). Sprint env a t) gs) '' '' @ r))"
      using Cons g by simp
    also have "\<dots> = t @ stripColors ('' '' @ Join (map (\<lambda>(a, t). Sprint env a t) gs) '' '' @ r)"
      using t by (rule stripColors_Sprint)
    also have "\<dots> = t @ '' '' @ stripColors (Join (map (\<lambda>(a, t). Sprint env a t) gs) '' '' @ r)"
      using stripColors_plain [of "'' ''"] by simp
    finally show ?thesis unfolding ih using Cons g by simp
  qed
qed

lemma matchesShape_chars:
  "matchesShape shape s \<Longrightarrow> c \<in> set s \<Longrightarrow> isDigit c \<or> (c \<in> set shape \<and> c \<noteq> CHR ''d'')"
proof -
  assume m: "matchesShape shape s" and c: "c \<in> set s"
  from c obtain i where i: "i < length s" "s ! i = c" by (auto simp: in_set_conv_nth)
  from m have len: "length shape = length s"
    and rel: "\<And>i. i < length s \<Longrightarrow> (if shape ! i = CHR ''d'' then isDigit (s ! i) else s ! i = shape ! i)"
    unfolding matchesShape_def by (auto simp: list_all2_conv_all_nth)
  show ?thesis
  proof (cases "shape ! i = CHR ''d''")
    case True
    then show ?thesis using rel [OF i(1)] i by simp
  next
    case False
    then have "c = shape ! i" using rel [OF i(1)] i by simp
    moreover have "shape ! i \<in> set shape" using i len by simp
    ultimately show ?thesis using False by simp
  qed
qed

lemma rfc3339_chars:
  "rfc3339 s \<Longrightarrow> c \<in> set s \<Longrightarrow> isDigit c \<or> c \<in> set ''-T:Z+''"
proof -
  assume r: "rfc3339 s" and c: "c \<in> set s"
  then consider "matchesShape ''dddd-dd-ddTdd:dd:ddZ'' s"
    | "matchesShape ''dddd-dd-ddTdd:dd:dd+dd:dd'' s"
    | "matchesShape ''dddd-dd-ddTdd:dd:dd-dd:dd'' s"
    unfolding rfc3339_def by blast
  then show ?thesis
  proof cases
    case 1
    from matchesShape_chars [OF 1 c] show ?thesis by auto
  next
    case 2
    from matchesShape_chars [OF 2 c] show ?thesis by auto
  next
    case 3
    from matchesShape_chars [OF 3 c] show ?thesis by auto
  qed
qed

lemma rfc3339_no_ESC: "rfc3339 s \<Longrightarrow> ESC \<notin> set s"
  using rfc3339_chars [of s ESC] by (auto simp: isDigit_def)

lemma rfc3339_no_LF: "rfc3339 s \<Longrightarrow> LF \<notin> set s"
  using rfc3339_chars [of s LF] by (auto simp: isDigit_def)

lemma Join_chars:
  "c \<in> set (Join xs sep) \<Longrightarrow> c \<in> set sep \<or> (\<exists>x \<in> set xs. c \<in> set x)"
  by (induction xs sep rule: Join.induct) auto

lemma Sprint_chars:
  "c \<in> set (Sprint env a t) \<Longrightarrow>
     c \<in> set t \<or> c = ESC \<or> c = CHR ''['' \<or> c = CHR ''m'' \<or> isDigit c"
proof (cases "NoColor env")
  case True
  assume "c \<in> set (Sprint env a t)"
  then show ?thesis using True by (simp add: Sprint_def)
next
  case False
  have z: "isDigit CHR ''0''" by (simp add: isDigit_def)
  assume "c \<in> set (Sprint env a t)"
  then have "c \<in> set t \<or> c = ESC \<or> c = CHR ''['' \<or> c = CHR ''m'' \<or> c = CHR ''0'' \<or>
      c \<in> set (decimal (attrCode a))"
    using False unfolding Sprint_def by (simp only: if_False set_append set_simps Un_iff insert_iff empty_iff) blast
  then show ?thesis using decimal_chars z by blast
qed

lemma Sprint_no_LF: "LF \<notin> set t \<Longrightarrow> LF \<notin> set (Sprint env a t)"
  using Sprint_chars [of LF env a t] by (auto simp: isDigit_def)

lemma levelStyle_table:
  "(lv, ls, lc) \<in> set [(LevelDebug, ''DEBUG'', FgHiCyan), (LevelInfo, ''INFO'', FgHiGreen),
      (LevelWarn, ''WARN'', FgHiYellow), (LevelError, ''ERROR'', FgHiRed),
      (LevelFatal, ''FATAL'', FgHiMagenta)] \<Longrightarrow>
   levelStyle lv = Some (ls, lc)"
  by (auto simp: levelStyle_def LevelDebug_def LevelInfo_def LevelWarn_def LevelError_def
      LevelFatal_def)

lemma levelStyle_clean:
  "levelStyle lv = Some (ls, lc) \<Longrightarrow> LF \<notin> set ls \<and> ESC \<notin> set ls"
  by (auto simp: levelStyle_def split: if_splits)

lemma lineGroups_payload:
  "g \<in> set (lineGroups ls lc ts m f) \<Longrightarrow>
     snd g = ''['' @ ls @ '']'' \<or> snd g = ts \<or>
     (snd g = Method f @ '' '' @ Path f) \<or> snd g = Status f \<or> snd g = Size f \<or>
     snd g = Latency f \<or> snd g = ''-'' \<or> snd g = m \<or> snd g = CallerInfo f"
  unfolding lineGroups_def by (auto split: if_splits)

lemma groups_chars:
  "c \<in> set (Join (map (\<lambda>(a, t). Sprint env a t) gs) '' '') \<Longrightarrow>
     c = CHR '' '' \<or> c = ESC \<or> c = CHR ''['' \<or> c = CHR ''m'' \<or> isDigit c \<or>
     (\<exists>g \<in> set gs. c \<in> set (snd g))"
proof -
  assume "c \<in> set (Join (map (\<lambda>(a, t). Sprint env a t) gs) '' '')"
  then have "c \<in> set '' '' \<or> (\<exists>x \<in> set (map (\<lambda>(a, t). Sprint env a t) gs). c \<in> set x)"
    by (rule Join_chars)
  then consider "c = CHR '' ''" | g where "g \<in> set gs" "c \<in> set (Sprint env (fst g) (snd g))"
    by (auto simp: case_prod_beta)
  then show ?thesis
  proof cases
    case 1
    then show ?thesis by simp
  next
    case 2
    from Sprint_chars [OF 2(2)] 2(1) show ?thesis by blast
  qed
qed

lemma defaultFormatter_no_LF:
  assumes "levelStyle lv = Some (ls, lc)"
    and "LF \<notin> set (now env)" "LF \<notin> set m" "LF \<notin> set (Method f)" "LF \<notin> set (Path f)"
    "LF \<notin> set (Status f)" "LF \<notin> set (Size f)" "LF \<notin> set (Latency f)"
    "LF \<notin> set (CallerInfo f)"
    and "defaultFormatter env lv m f = Inr r"
  shows "LF \<notin> set r"
proof
  assume "LF \<in> set r"
  then have "LF \<in> set (Join (map (\<lambda>(a, t). Sprint env a t) (lineGroups ls lc (now env) m f)) '' '')"
    using assms(1) assms(10) by (simp add: defaultFormatter_groups)
  from groups_chars [OF this]
  obtain g where g: "g \<in> set (lineGroups ls lc (now env) m f)" "LF \<in> set (snd g)"
    by (auto simp: isDigit_def)
  from lineGroups_payload [OF g(1)] g(2) assms levelStyle_clean [OF assms(1)]
  show False by auto
qed





lemma Checkout_scenario:
  assumes c: "\<not> color l" and f: "formatter l = defaultFormatter" and lv: "level l \<le> LevelInfo"
    and ts: "ESC \<notin> set (now env)" and fl: "ESC \<notin> set (fst (captured callers))"
  shows "Log env callers l LevelInfo ''Checkout completed''
        (NewLogFields ''POST'' ''/api/checkout'' ''200 OK'' ''51KB'' ''120ms'') w =
      Inr (l, fst (out l
        (''[INFO] '' @ now env @
         '' POST /api/checkout 200 OK 51KB 120ms - Checkout completed - '' @
         shortPath (fst (captured callers)) @ '':'' @ Itoa (snd (captured callers)) @ [LF]) w))"
proof -
  let ?ci = "shortPath (fst (captured callers)) @ '':'' @ Itoa (snd (captured callers))"
  let ?F = "NewLogFields ''POST'' ''/api/checkout'' ''200 OK'' ''51KB'' ''120ms''"
  let ?gs = "lineGroups ''INFO'' FgHiGreen (now env) ''Checkout completed'' (?F\<lparr>CallerInfo := ?ci\<rparr>)"
  have fc: "fillCaller callers ?F = ?F\<lparr>CallerInfo := ?ci\<rparr>"
    by (simp add: fillCaller_def NewLogFields_def)
  have ls: "levelStyle LevelInfo = Some (''INFO'', FgHiGreen)"
    by (simp add: levelStyle_def LevelInfo_def LevelDebug_def)
  have r: "defaultFormatter env LevelInfo ''Checkout completed'' (?F\<lparr>CallerInfo := ?ci\<rparr>) =
      Inr (Join (map (\<lambda>(a, t). Sprint env a t) ?gs) '' '')"
    by (rule defaultFormatter_groups [OF ls])
  have "set (shortPath (fst (captured callers))) \<subseteq> set (fst (captured callers))"
    using shortPath_suffix by (rule set_mono_suffix)
  then have p: "ESC \<notin> set (shortPath (fst (captured callers)))" using fl by blast
  have i: "ESC \<notin> set (Itoa (snd (captured callers)))"
    using Itoa_chars [of ESC] by (auto simp: isDigit_def)
  have ci: "ESC \<notin> set ?ci" using p i by simp
  have gs: "?gs = [(FgHiGreen, ''[INFO]''), (FgHiWhite, now env),
      (FgHiBlue, ''POST /api/checkout''), (FgHiGreen, ''200 OK''), (FgHiYellow, ''51KB''),
      (FgHiMagenta, ''120ms''), (FgHiWhite, ''-''), (FgCyan, ''Checkout completed''),
      (FgHiWhite, ''-''), (FgHiBlue, ?ci)]"
    by (simp add: lineGroups_def NewLogFields_def)
  have clean: "\<forall>g \<in> set ?gs. ESC \<notin> set (snd g)"
    unfolding gs using ts ci by simp
  have "stripColors (Join (map (\<lambda>(a, t). Sprint env a t) ?gs) '' '' @ []) =
      Join (map snd ?gs) '' '' @ stripColors []"
    using clean by (rule stripColors_groups)
  moreover have "Join (map snd ?gs) '' '' =
      ''[INFO] '' @ now env @
         '' POST /api/checkout 200 OK 51KB 120ms - Checkout completed - '' @ ?ci"
    unfolding gs by simp
  ultimately have s: "stripColors (Join (map (\<lambda>(a, t). Sprint env a t) ?gs) '' '') =
      ''[INFO] '' @ now env @
         '' POST /api/checkout 200 OK 51KB 120ms - Checkout completed - '' @ ?ci"
    by simp
  have m: "ReplaceAll ''Checkout completed'' LF '' '' = ''Checkout completed''" by simp
  have n: "\<not> LevelInfo < level l" using lv by simp
  show ?thesis unfolding Log_unfold fc m f r sum.case s using n c by simp
qed

section \<open>Properties of the JSON formatter\<close>

text \<open>
  The cases of \<^verbatim>\<open>DecodeRuneInString\<close> and of \<open>quoteBody\<close>, and the proof that reading a
  quoted string gives back the string, up to the bytes that are not UTF-8. The text that
  \<^verbatim>\<open>JSONFormatter\<close> returns is given by \<open>JSONFormatter_text\<close>, and its value by
  \<open>parse_JSONFormatter\<close>.
\<close>

lemma runeSize_le: "runeSize x \<le> 4"
  by (simp add: runeSize_def)

lemma runeSize_ascii: "runeSize x = 1 \<longleftrightarrow> x < 0x80"
  by (simp add: runeSize_def)

lemma Decode_eq:
  "DecodeRuneInString (c0 # cs) =
     (if (of_char c0 :: nat) < 0x80 then (of_char c0, 1)
      else if multiByte (c0 # cs) then (runeOf (c0 # cs), runeSize (of_char c0))
      else (RuneError, 1))"
proof -
  let ?sz = "runeSize (of_char c0)"
  have "?sz \<le> 4" by (rule runeSize_le)
  then consider "?sz = 0" | "?sz = 1" | "?sz = 2" | "?sz = 3" | "?sz = 4" by linarith
  then show ?thesis
  proof cases
    case 1
    then have "\<not> (of_char c0 :: nat) < 0x80" using runeSize_ascii [of "of_char c0"] by simp
    then show ?thesis using 1
      by (simp add: DecodeRuneInString_def multiByte_def Let_def)
  next
    case 2
    then have "(of_char c0 :: nat) < 0x80" using runeSize_ascii [of "of_char c0"] by simp
    then show ?thesis using 2 by (simp add: DecodeRuneInString_def Let_def)
  next
    case 3
    then have "\<not> (of_char c0 :: nat) < 0x80" using runeSize_ascii [of "of_char c0"] by simp
    then show ?thesis using 3
      by (auto simp: DecodeRuneInString_def multiByte_def runeOf_def Let_def Suc_le_eq not_less)
  next
    case 4
    then have "\<not> (of_char c0 :: nat) < 0x80" using runeSize_ascii [of "of_char c0"] by simp
    then show ?thesis using 4
      by (auto simp: DecodeRuneInString_def multiByte_def runeOf_def Let_def Suc_le_eq not_less)
  next
    case 5
    then have "\<not> (of_char c0 :: nat) < 0x80" using runeSize_ascii [of "of_char c0"] by simp
    then show ?thesis using 5
      by (auto simp: DecodeRuneInString_def multiByte_def runeOf_def Let_def Suc_le_eq not_less)
  qed
qed



lemma quoteBody_safe:
  "(of_char b :: nat) < 0x80 \<Longrightarrow> htmlSafe b \<Longrightarrow> quoteBody sh (b # bs) = b # quoteBody sh bs"
  by (subst quoteBody.simps) simp

lemma quoteBody_escape:
  "(of_char b :: nat) < 0x80 \<Longrightarrow> \<not> htmlSafe b \<Longrightarrow>
   quoteBody sh (b # bs) = escapeByte sh b @ quoteBody sh bs"
  by (subst quoteBody.simps) simp

lemma multiByte_size: "multiByte s \<Longrightarrow> 2 \<le> runeSize (of_char (s ! 0))"
  by (simp add: multiByte_def Let_def)

lemma quoteBody_invalid:
  "\<not> (of_char b :: nat) < 0x80 \<Longrightarrow> \<not> multiByte (b # bs) \<Longrightarrow>
   quoteBody sh (b # bs) = [BSL] @ ''ufffd'' @ quoteBody sh bs"
  by (subst quoteBody.simps) (simp add: Decode_eq)

lemma quoteBody_separator:
  "\<not> (of_char b :: nat) < 0x80 \<Longrightarrow> multiByte (b # bs) \<Longrightarrow>
   runeOf (b # bs) = 0x2028 \<or> runeOf (b # bs) = 0x2029 \<Longrightarrow>
   quoteBody sh (b # bs) =
     [BSL] @ ''u202'' @ [hexDigit (runeOf (b # bs) mod 16)] @
     quoteBody sh (drop (runeSize (of_char b)) (b # bs))"
  using multiByte_size [of "b # bs"]
  by (subst quoteBody.simps) (auto simp: Decode_eq)

lemma quoteBody_copy:
  "\<not> (of_char b :: nat) < 0x80 \<Longrightarrow> multiByte (b # bs) \<Longrightarrow>
   runeOf (b # bs) \<noteq> 0x2028 \<Longrightarrow> runeOf (b # bs) \<noteq> 0x2029 \<Longrightarrow>
   quoteBody sh (b # bs) =
     take (runeSize (of_char b)) (b # bs) @ quoteBody sh (drop (runeSize (of_char b)) (b # bs))"
  using multiByte_size [of "b # bs"]
  by (subst quoteBody.simps) (auto simp: Decode_eq)

lemma coerceUTF8_ascii:
  "(of_char b :: nat) < 0x80 \<Longrightarrow> coerceUTF8 (b # bs) = b # coerceUTF8 bs"
  by (subst coerceUTF8.simps) (simp add: Decode_eq RuneError_def)

lemma coerceUTF8_invalid:
  "\<not> (of_char b :: nat) < 0x80 \<Longrightarrow> \<not> multiByte (b # bs) \<Longrightarrow>
   coerceUTF8 (b # bs) = [CHR 0xEF, CHR 0xBF, CHR 0xBD] @ coerceUTF8 bs"
  by (subst coerceUTF8.simps) (simp add: Decode_eq)

lemma coerceUTF8_copy:
  "\<not> (of_char b :: nat) < 0x80 \<Longrightarrow> multiByte (b # bs) \<Longrightarrow>
   coerceUTF8 (b # bs) =
     take (runeSize (of_char b)) (b # bs) @ coerceUTF8 (drop (runeSize (of_char b)) (b # bs))"
  using multiByte_size [of "b # bs"]
  by (subst coerceUTF8.simps) (auto simp: Decode_eq)

lemma validUTF8_ascii:
  "(of_char b :: nat) < 0x80 \<Longrightarrow> validUTF8 (b # bs) = validUTF8 bs"
  by (subst validUTF8.simps) (simp add: Decode_eq RuneError_def)

lemma validUTF8_multi:
  "\<not> (of_char b :: nat) < 0x80 \<Longrightarrow>
   validUTF8 (b # bs) =
     (multiByte (b # bs) \<and> validUTF8 (drop (runeSize (of_char b)) (b # bs)))"
  using multiByte_size [of "b # bs"]
  by (subst validUTF8.simps) (auto simp: Decode_eq)



lemma parseChars_quote: "parseChars (DQ # t) = Some ([], t)"
  by (subst parseChars.simps) simp

lemma htmlSafe_plain:
  "htmlSafe b \<Longrightarrow> b \<noteq> DQ \<and> b \<noteq> BSL \<and> \<not> (of_char b :: nat) < 0x20 \<and> (of_char b :: nat) < 0x80"
  by (auto simp: htmlSafe_def)

lemma parseChars_safe:
  "htmlSafe b \<Longrightarrow>
   parseChars (b # t) = map_option (\<lambda>(s, rest). (b # s, rest)) (parseChars t)"
  using htmlSafe_plain [of b] by (subst parseChars.simps) simp

lemma hexVal_hexDigit: "n < 16 \<Longrightarrow> hexVal (hexDigit n) = Some n"
proof -
  have "\<forall>n \<in> set [0..<16]. hexVal (hexDigit n) = Some n" by code_simp
  moreover assume "n < 16"
  ultimately show ?thesis by simp
qed

lemma hex4_byte:
  "x < 0x80 \<Longrightarrow> hex4 CHR ''0'' CHR ''0'' (hexDigit (x div 16)) (hexDigit (x mod 16)) = Some x"
proof -
  assume x: "x < 0x80"
  have z: "hexVal CHR ''0'' = Some 0" by (simp add: hexVal_def)
  have a: "hexVal (hexDigit (x div 16)) = Some (x div 16)"
    using x by (intro hexVal_hexDigit) simp
  have b: "hexVal (hexDigit (x mod 16)) = Some (x mod 16)"
    by (intro hexVal_hexDigit) simp
  show ?thesis unfolding hex4_def z a b by simp
qed

lemma parseChars_unicode:
  "hex4 h1 h2 h3 h4 = Some cp \<Longrightarrow> \<not> (0xD800 \<le> cp \<and> cp \<le> 0xDFFF) \<Longrightarrow>
   parseChars (BSL # CHR ''u'' # h1 # h2 # h3 # h4 # t) =
     map_option (\<lambda>(s, rest). (utf8Encode cp @ s, rest)) (parseChars t)"
  by (subst parseChars.simps) auto

lemma parseChars_short:
  "e \<noteq> CHR ''u'' \<Longrightarrow> unescape e = Some b \<Longrightarrow>
   parseChars (BSL # e # t) = map_option (\<lambda>(s, rest). (b # s, rest)) (parseChars t)"
  by (subst parseChars.simps) simp

lemma utf8Encode_ascii: "(of_char b :: nat) < 0x80 \<Longrightarrow> utf8Encode (of_char b) = [b]"
  by (simp add: utf8Encode_def)

lemma parseChars_escapeByte:
  assumes a: "(of_char b :: nat) < 0x80" and n: "\<not> htmlSafe b"
  shows "parseChars (escapeByte sh b @ t) =
     map_option (\<lambda>(s, rest). (b # s, rest)) (parseChars t)"
proof -
  consider "b = BSL \<or> b = DQ" | "sh" "b = CHR 0x08" | "sh" "b = CHR 0x0C" | "b = LF"
    | "b = CHR 0x0D" | "b = CHR 0x09"
    | "b \<noteq> BSL" "b \<noteq> DQ" "\<not> (sh \<and> b = CHR 0x08)" "\<not> (sh \<and> b = CHR 0x0C)" "b \<noteq> LF"
      "b \<noteq> CHR 0x0D" "b \<noteq> CHR 0x09"
    by blast
  then show ?thesis
  proof cases
    case 1
    then have "escapeByte sh b = [BSL, b]" "b \<noteq> CHR ''u''" "unescape b = Some b"
      by (auto simp: escapeByte_def unescape_def)
    then show ?thesis using parseChars_short [of b b t] by simp
  next
    case 2
    then have "escapeByte sh b = [BSL, CHR ''b'']" by (simp add: escapeByte_def)
    moreover have "unescape CHR ''b'' = Some b" using 2 by (simp add: unescape_def)
    ultimately show ?thesis using parseChars_short [of "CHR ''b''" b t] by simp
  next
    case 3
    then have "escapeByte sh b = [BSL, CHR ''f'']" by (simp add: escapeByte_def)
    moreover have "unescape CHR ''f'' = Some b" using 3 by (simp add: unescape_def)
    ultimately show ?thesis using parseChars_short [of "CHR ''f''" b t] by simp
  next
    case 4
    then have "escapeByte sh b = [BSL, CHR ''n'']" by (simp add: escapeByte_def)
    moreover have "unescape CHR ''n'' = Some b" using 4 by (simp add: unescape_def)
    ultimately show ?thesis using parseChars_short [of "CHR ''n''" b t] by simp
  next
    case 5
    then have "escapeByte sh b = [BSL, CHR ''r'']" by (simp add: escapeByte_def)
    moreover have "unescape CHR ''r'' = Some b" using 5 by (simp add: unescape_def)
    ultimately show ?thesis using parseChars_short [of "CHR ''r''" b t] by simp
  next
    case 6
    then have "escapeByte sh b = [BSL, CHR ''t'']" by (simp add: escapeByte_def)
    moreover have "unescape CHR ''t'' = Some b" using 6 by (simp add: unescape_def)
    ultimately show ?thesis using parseChars_short [of "CHR ''t''" b t] by simp
  next
    case 7
    let ?x = "of_char b :: nat"
    have e: "escapeByte sh b =
        [BSL, CHR ''u'', CHR ''0'', CHR ''0'', hexDigit (?x div 16), hexDigit (?x mod 16)]"
      using 7 by (simp add: escapeByte_def)
    have h: "hex4 CHR ''0'' CHR ''0'' (hexDigit (?x div 16)) (hexDigit (?x mod 16)) = Some ?x"
      using a by (rule hex4_byte)
    have s: "\<not> (0xD800 \<le> ?x \<and> ?x \<le> 0xDFFF)" using a by simp
    show ?thesis unfolding e using parseChars_unicode [OF h s, of t] utf8Encode_ascii [OF a]
      by simp
  qed
qed

lemma hexVal_digits:
  "hexVal CHR ''f'' = Some 15" "hexVal CHR ''d'' = Some 13" "hexVal CHR ''2'' = Some 2"
  "hexVal CHR ''0'' = Some 0" "hexVal CHR ''8'' = Some 8" "hexVal CHR ''9'' = Some 9"
  by (simp_all add: hexVal_def)

lemma utf8Encode_values:
  "utf8Encode 0xFFFD = [CHR 0xEF, CHR 0xBF, CHR 0xBD]"
  "utf8Encode 0x2028 = [CHR 0xE2, CHR 0x80, CHR 0xA8]"
  "utf8Encode 0x2029 = [CHR 0xE2, CHR 0x80, CHR 0xA9]"
  by (simp_all add: utf8Encode_def char_of_eq_iff)

lemma parseChars_replacement:
  "parseChars ([BSL] @ ''ufffd'' @ t) =
     map_option (\<lambda>(s, rest). ([CHR 0xEF, CHR 0xBF, CHR 0xBD] @ s, rest)) (parseChars t)"
proof -
  have h: "hex4 CHR ''f'' CHR ''f'' CHR ''f'' CHR ''d'' = Some 0xFFFD"
    by (simp add: hex4_def hexVal_digits)
  have s: "\<not> (0xD800 \<le> (0xFFFD :: nat) \<and> (0xFFFD :: nat) \<le> 0xDFFF)" by simp
  show ?thesis using parseChars_unicode [OF h s, of t] unfolding utf8Encode_values by simp
qed

lemma parseChars_separator:
  "r = 0x2028 \<or> r = 0x2029 \<Longrightarrow>
   parseChars ([BSL] @ ''u202'' @ [hexDigit (r mod 16)] @ t) =
     map_option (\<lambda>(s, rest). (utf8Encode r @ s, rest)) (parseChars t)"
proof -
  have d: "hexDigit (0x2028 mod 16) = CHR ''8''" "hexDigit (0x2029 mod 16) = CHR ''9''"
    by (simp_all add: hexDigit_def)
  have h8: "hex4 CHR ''2'' CHR ''0'' CHR ''2'' CHR ''8'' = Some 0x2028"
    by (simp add: hex4_def hexVal_digits)
  have h9: "hex4 CHR ''2'' CHR ''0'' CHR ''2'' CHR ''9'' = Some 0x2029"
    by (simp add: hex4_def hexVal_digits)
  have s8: "\<not> (0xD800 \<le> (0x2028 :: nat) \<and> (0x2028 :: nat) \<le> 0xDFFF)" by simp
  have s9: "\<not> (0xD800 \<le> (0x2029 :: nat) \<and> (0x2029 :: nat) \<le> 0xDFFF)" by simp
  assume "r = 0x2028 \<or> r = 0x2029"
  then show ?thesis
  proof
    assume r: "r = 0x2028"
    show ?thesis unfolding r d using parseChars_unicode [OF h8 s8, of t] by simp
  next
    assume r: "r = 0x2029"
    show ?thesis unfolding r d using parseChars_unicode [OF h9 s9, of t] by simp
  qed
qed



lemma runeSize_lead: "2 \<le> runeSize x \<Longrightarrow> 0xC2 \<le> x \<and> x \<le> 0xF4"
  by (simp add: runeSize_def split: if_splits)

lemma acceptLo_ge: "0x80 \<le> acceptLo x"
  by (simp add: acceptLo_def)

lemma acceptHi_le: "acceptHi x \<le> 0xBF"
  by (simp add: acceptHi_def)

lemma multiByte_high:
  assumes m: "multiByte s" and i: "i < runeSize (of_char (s ! 0))"
  shows "(0x80 :: nat) \<le> of_char (s ! i)"
proof -
  let ?sz = "runeSize (of_char (s ! 0))"
  have sz: "2 \<le> ?sz" using m by (rule multiByte_size)
  have s0: "(0x80 :: nat) \<le> of_char (s ! 0)" using runeSize_lead [OF sz] by simp
  have s1: "(0x80 :: nat) \<le> of_char (s ! 1)"
    using m acceptLo_ge [of "of_char (s ! 0)"] by (simp add: multiByte_def Let_def)
  have s2: "3 \<le> ?sz \<Longrightarrow> (0x80 :: nat) \<le> of_char (s ! 2)"
    using m by (auto simp: multiByte_def Let_def)
  have s3: "4 \<le> ?sz \<Longrightarrow> (0x80 :: nat) \<le> of_char (s ! 3)"
    using m by (auto simp: multiByte_def Let_def)
  have "?sz \<le> 4" by (rule runeSize_le)
  then consider "i = 0" | "i = 1" | "i = 2" "3 \<le> ?sz" | "i = 3" "4 \<le> ?sz"
    using i by linarith
  then show ?thesis using s0 s1 s2 s3 by cases simp_all
qed

lemma multiByte_length: "multiByte s \<Longrightarrow> runeSize (of_char (s ! 0)) \<le> length s"
  by (simp add: multiByte_def Let_def)

lemma multiByte_take_high:
  assumes m: "multiByte s" and c: "c \<in> set (take (runeSize (of_char (s ! 0))) s)"
  shows "(0x80 :: nat) \<le> of_char c"
proof -
  let ?n = "runeSize (of_char (s ! 0))"
  from c obtain i where i: "i < length (take ?n s)" "take ?n s ! i = c"
    by (auto simp: in_set_conv_nth)
  then have "i < ?n" by simp
  then have "(0x80 :: nat) \<le> of_char (s ! i)" using m by (intro multiByte_high)
  moreover have "take ?n s ! i = s ! i" using i by simp
  ultimately show ?thesis using i by simp
qed

lemma multiByte_prefix:
  assumes m: "multiByte s" and n: "n = runeSize (of_char (s ! 0))"
  shows "multiByte (take n s @ t) \<and> runeOf (take n s @ t) = runeOf s \<and>
    (take n s @ t) ! 0 = s ! 0"
proof -
  define p where "p = take n s @ t"
  have len: "n \<le> length s" using m n by (simp add: multiByte_length)
  have sz: "2 \<le> n" using m n by (simp add: multiByte_size)
  have nth: "i < n \<Longrightarrow> p ! i = s ! i" for i
    using len by (simp add: p_def nth_append)
  have l: "n \<le> length p" using len by (simp add: p_def)
  have z: "p ! 0 = s ! 0" using nth [of 0] sz by simp
  have o: "p ! Suc 0 = s ! Suc 0" using nth [of 1] sz by simp
  have r: "runeSize (of_char (s ! 0)) = n" using n by simp
  have "n \<le> 4" using n by (simp add: runeSize_le)
  then consider "n = 2" | "n = 3" | "n = 4" using sz by linarith
  then have "multiByte p \<and> runeOf p = runeOf s \<and> p ! 0 = s ! 0"
  proof cases
    case 1
    show ?thesis using m l by (simp add: multiByte_def runeOf_def Let_def z o r 1)
  next
    case 2
    have t: "p ! 2 = s ! 2" using nth [of 2] 2 by simp
    show ?thesis using m l by (simp add: multiByte_def runeOf_def Let_def z o t r 2)
  next
    case 3
    have t: "p ! 2 = s ! 2" using nth [of 2] 3 by simp
    have u: "p ! 3 = s ! 3" using nth [of 3] 3 by simp
    show ?thesis using m l by (simp add: multiByte_def runeOf_def Let_def z o t u r 3)
  qed
  then show ?thesis unfolding p_def .
qed

lemma parseChars_multi:
  assumes a: "\<not> (of_char b :: nat) < 0x80" and m: "multiByte (b # bs)"
  shows "parseChars (take (runeSize (of_char b)) (b # bs) @ t) =
     map_option (\<lambda>(s, rest). (take (runeSize (of_char b)) (b # bs) @ s, rest)) (parseChars t)"
proof -
  let ?n = "runeSize (of_char b)"
  let ?p = "take ?n (b # bs)"
  have n: "?n = runeSize (of_char ((b # bs) ! 0))" by simp
  have sz: "2 \<le> ?n" using multiByte_size [OF m] by simp
  have len: "?n \<le> length (b # bs)" using multiByte_length [OF m] by simp
  obtain k where k: "?n = Suc k" using sz by (cases ?n) auto
  have p: "?p @ t = b # (take k bs @ t)" unfolding k by simp
  have pm: "multiByte (?p @ t)" "runeOf (?p @ t) = runeOf (b # bs)"
    using multiByte_prefix [OF m n, of t] by simp_all
  have d: "DecodeRuneInString (b # (take k bs @ t)) = (runeOf (b # bs), ?n)"
    using a pm unfolding p by (simp add: Decode_eq)
  have tk: "take ?n (b # (take k bs @ t)) = ?p" using len unfolding k by simp
  have dr: "drop ?n (b # (take k bs @ t)) = t" using len unfolding k by simp
  have nq: "b \<noteq> DQ" "b \<noteq> BSL" "\<not> (of_char b :: nat) < 0x20" using a by auto
  have ns: "runeSize (of_char b) \<noteq> Suc 0" using sz by simp
  show ?thesis unfolding p
    by (subst parseChars.simps) (simp add: nq a d tk dr ns del: take_Suc_Cons)
qed



lemma of_char_eq_nat: "(of_char c :: nat) = n \<Longrightarrow> c = char_of n"
  by (metis char_of_char)

lemma mod_in_block:
  fixes x :: nat
  shows "k * d \<le> x \<Longrightarrow> x < k * d + d \<Longrightarrow> x mod d + k * d = x"
proof -
  assume lo: "k * d \<le> x" and hi: "x < k * d + d"
  have "(x - k * d) mod d = x - k * d" using lo hi by (intro mod_less) linarith
  moreover have "(x - k * d) mod d = x mod d" using lo by (metis le_mod_geq mod_mult_self3 add.commute le_add_diff_inverse2 mod_mult_self2)
  ultimately show ?thesis using lo by simp
qed

lemma separator_arith:
  fixes s0 s1 s2 :: nat
  assumes "0xE0 \<le> s0" "s0 \<le> 0xEF" "0x80 \<le> s1" "s1 \<le> 0xBF" "0x80 \<le> s2" "s2 \<le> 0xBF"
    and f: "s0 mod 16 * 4096 + s1 mod 64 * 64 + s2 mod 64 = r" and r: "r = 0x2028 \<or> r = 0x2029"
  shows "s0 = 0xE2 \<and> s1 = 0x80 \<and> s2 = 0x80 + r mod 64"
proof -
  define a b c where "a = s0 mod 16" and "b = s1 mod 64" and "c = s2 mod 64"
  have bc: "b < 64" "c < 64" by (simp_all add: b_def c_def)
  have e: "a * 4096 + b * 64 + c = r" using f by (simp add: a_def b_def c_def)
  have a: "a = 2" using e bc r by linarith
  have b: "b = 0" using e bc r a by linarith
  have c: "c = r mod 64" using e a b r by auto
  have "s0 mod 16 + 14 * 16 = s0" using assms(1,2) by (intro mod_in_block) simp_all
  then have s0: "s0 = 0xE2" using a by (simp add: a_def)
  have "s1 mod 64 + 2 * 64 = s1" using assms(3,4) by (intro mod_in_block) simp_all
  then have s1: "s1 = 0x80" using b by (simp add: b_def)
  have "s2 mod 64 + 2 * 64 = s2" using assms(5,6) by (intro mod_in_block) simp_all
  then have s2: "s2 = 0x80 + r mod 64" using c by (simp add: c_def)
  from s0 s1 s2 show ?thesis by simp
qed

lemma lead4_arith:
  fixes s0 s1 :: nat
  assumes h: "s0 = 0xF0 \<Longrightarrow> 0x90 \<le> s1" and s1: "s1 \<le> 0xBF" and s0: "0xF0 \<le> s0 \<and> s0 \<le> 0xF4"
  shows "0x10000 \<le> s0 mod 8 * 262144 + s1 mod 64 * 4096"
proof (cases "s0 = 0xF0")
  case True
  then have "0x90 \<le> s1" by (rule h)
  then have "s1 mod 64 + 2 * 64 = s1" using s1 by (intro mod_in_block) simp_all
  then have "16 \<le> s1 mod 64" using \<open>0x90 \<le> s1\<close> by linarith
  then show ?thesis by linarith
next
  case False
  have "s0 mod 8 + 30 * 8 = s0" using s0 by (intro mod_in_block) simp_all
  then have "1 \<le> s0 mod 8" using False s0 by linarith
  then show ?thesis by linarith
qed

lemma multiByte_separator:
  assumes m: "multiByte s" and r: "runeOf s = 0x2028 \<or> runeOf s = 0x2029"
  shows "runeSize (of_char (s ! 0)) = 3 \<and> take 3 s = utf8Encode (runeOf s)"
proof -
  let ?s0 = "of_char (s ! 0) :: nat" and ?s1 = "of_char (s ! 1) :: nat"
  let ?s2 = "of_char (s ! 2) :: nat"
  let ?sz = "runeSize ?s0"
  have sz: "2 \<le> ?sz" using m by (rule multiByte_size)
  have lead: "0xC2 \<le> ?s0 \<and> ?s0 \<le> 0xF4" using sz by (rule runeSize_lead)
  have len: "?sz \<le> length s" using m by (rule multiByte_length)
  have s1: "acceptLo ?s0 \<le> ?s1" "?s1 \<le> acceptHi ?s0"
    using m by (simp_all add: multiByte_def Let_def)
  have "?sz \<le> 4" by (rule runeSize_le)
  then consider "?sz = 2" | "?sz = 3" | "?sz = 4" using sz by linarith
  then show ?thesis
  proof cases
    case 1
    then have "runeOf s = ?s0 mod 32 * 64 + ?s1 mod 64" by (simp add: runeOf_def Let_def)
    moreover have "?s0 mod 32 < 32" "?s1 mod 64 < 64" by simp_all
    ultimately have "runeOf s < 0x2028" by linarith
    then show ?thesis using r by simp
  next
    case 3
    then have f: "runeOf s = ?s0 mod 8 * 262144 + ?s1 mod 64 * 4096 +
        of_char (s ! 2) mod 64 * 64 + of_char (s ! 3) mod 64"
      by (simp add: runeOf_def Let_def)
    have s0: "0xF0 \<le> ?s0 \<and> ?s0 \<le> 0xF4" using 3 by (simp add: runeSize_def split: if_splits)
    have "?s0 = 0xF0 \<Longrightarrow> 0x90 \<le> ?s1" using s1 by (simp add: acceptLo_def)
    moreover have "?s1 \<le> 0xBF" using s1 acceptHi_le [of ?s0] by simp
    ultimately have "0x10000 \<le> ?s0 mod 8 * 262144 + ?s1 mod 64 * 4096"
      using s0 by (rule lead4_arith)
    then have "0x10000 \<le> runeOf s" using f by simp
    then show ?thesis using r by simp
  next
    case 2
    then have f: "?s0 mod 16 * 4096 + ?s1 mod 64 * 64 + ?s2 mod 64 = runeOf s"
      by (simp add: runeOf_def Let_def)
    have s0: "0xE0 \<le> ?s0" "?s0 \<le> 0xEF" using 2 by (simp_all add: runeSize_def split: if_splits)
    have a1: "0x80 \<le> ?s1" "?s1 \<le> 0xBF"
      using s1 acceptLo_ge [of ?s0] acceptHi_le [of ?s0] by simp_all
    have a2: "0x80 \<le> ?s2" "?s2 \<le> 0xBF" using m 2 by (simp_all add: multiByte_def Let_def)
    from separator_arith [OF s0 a1 a2 f r]
    have v: "?s0 = 0xE2" "?s1 = 0x80" "?s2 = 0x80 + runeOf s mod 64" by simp_all
    have c0: "s ! 0 = CHR 0xE2" using of_char_eq_nat [OF v(1)] by (simp add: char_of_eq_iff)
    have c1: "s ! 1 = CHR 0x80" using of_char_eq_nat [OF v(2)] by (simp add: char_of_eq_iff)
    have c2: "s ! 2 = char_of (0x80 + runeOf s mod 64)" using v(3) by (rule of_char_eq_nat)
    have l3: "3 \<le> length s" using len 2 by simp
    then obtain x y z w where s: "s = x # y # z # w"
      by (cases s; cases "tl s"; cases "tl (tl s)") auto
    have t: "take 3 s = [s ! 0, s ! 1, s ! 2]" unfolding s by simp
    have "utf8Encode (runeOf s) = [CHR 0xE2, CHR 0x80, char_of (0x80 + runeOf s mod 64)]"
      using r by (auto simp: utf8Encode_def char_of_eq_iff)
    then show ?thesis using 2 t c0 c1 c2 by simp
  qed
qed



lemma parse_quoteBody:
  "parseChars (quoteBody sh s @ DQ # rest) = Some (coerceUTF8 s, rest)"
proof (induction "length s" arbitrary: s rule: less_induct)
  case less
  show ?case
  proof (cases s)
    case Nil
    then show ?thesis
      by (simp add: quoteBody.simps(1) coerceUTF8.simps(1) parseChars_quote)
  next
    case (Cons b bs)
    have ih: "parseChars (quoteBody sh t @ DQ # rest) = Some (coerceUTF8 t, rest)"
      if "length t < length s" for t
      using less that by blast
    have ih1: "parseChars (quoteBody sh bs @ DQ # rest) = Some (coerceUTF8 bs, rest)"
      using ih [of bs] Cons by simp
    show ?thesis
    proof (cases "(of_char b :: nat) < 0x80")
      case True
      note ascii = True
      show ?thesis
      proof (cases "htmlSafe b")
        case True
        show ?thesis unfolding Cons
          by (simp add: quoteBody_safe [OF ascii True] coerceUTF8_ascii [OF ascii]
              parseChars_safe [OF True] ih1)
      next
        case False
        show ?thesis unfolding Cons
          by (simp add: quoteBody_escape [OF ascii False] coerceUTF8_ascii [OF ascii]
              parseChars_escapeByte [OF ascii False] ih1)
      qed
    next
      case False
      note high = False
      show ?thesis
      proof (cases "multiByte (b # bs)")
        case False
        have "parseChars (([BSL] @ ''ufffd'' @ quoteBody sh bs) @ DQ # rest) =
            Some ([CHR 0xEF, CHR 0xBF, CHR 0xBD] @ coerceUTF8 bs, rest)"
          using parseChars_replacement [of "quoteBody sh bs @ DQ # rest"] ih1 by simp
        then show ?thesis unfolding Cons
          by (simp only: quoteBody_invalid [OF high False] coerceUTF8_invalid [OF high False])
      next
        case True
        let ?n = "runeSize (of_char b)"
        let ?d = "drop ?n (b # bs)"
        have "2 \<le> ?n" using multiByte_size [OF True] by simp
        then have "length ?d < length s" unfolding Cons by simp
        then have ihd: "parseChars (quoteBody sh ?d @ DQ # rest) = Some (coerceUTF8 ?d, rest)"
          by (rule ih)
        have co: "coerceUTF8 (b # bs) = take ?n (b # bs) @ coerceUTF8 ?d"
          using high True by (rule coerceUTF8_copy)
        show ?thesis
        proof (cases "runeOf (b # bs) = 0x2028 \<or> runeOf (b # bs) = 0x2029")
          case True
          note sep = True
          have n3: "?n = 3" and tk: "take 3 (b # bs) = utf8Encode (runeOf (b # bs))"
            using multiByte_separator [OF \<open>multiByte (b # bs)\<close> sep] by simp_all
          have "parseChars (([BSL] @ ''u202'' @ [hexDigit (runeOf (b # bs) mod 16)] @
              quoteBody sh ?d) @ DQ # rest) =
            Some (utf8Encode (runeOf (b # bs)) @ coerceUTF8 ?d, rest)"
            using parseChars_separator [OF sep, of "quoteBody sh ?d @ DQ # rest"] ihd by simp
          then show ?thesis unfolding Cons co
            unfolding quoteBody_separator [OF high \<open>multiByte (b # bs)\<close> sep] n3 tk .
        next
          case False
          then have ne: "runeOf (b # bs) \<noteq> 0x2028" "runeOf (b # bs) \<noteq> 0x2029" by simp_all
          have "parseChars ((take ?n (b # bs) @ quoteBody sh ?d) @ DQ # rest) =
              Some (take ?n (b # bs) @ coerceUTF8 ?d, rest)"
            using parseChars_multi [OF high True, of "quoteBody sh ?d @ DQ # rest"] ihd by simp
          then show ?thesis unfolding Cons co
            unfolding quoteBody_copy [OF high True ne] .
        qed
      qed
    qed
  qed
qed

lemma parseValue_string:
  "parseValue (Suc n) (appendString sh s @ rest) = Some (JString (coerceUTF8 s), rest)"
  by (simp add: appendString_def parse_quoteBody)



lemma sort_entry:
  "sort_key fst [(''timestamp'', a), (''level'', b), (''message'', c), (''fields'', d)] =
     [(''fields'', d), (''level'', b), (''message'', c), (''timestamp'', a)]"
  by (simp add: less_eq_char_def less_char_def)

lemma appendString_keys:
  "appendString sh ''fields'' = [DQ] @ ''fields'' @ [DQ]"
  "appendString sh ''level'' = [DQ] @ ''level'' @ [DQ]"
  "appendString sh ''message'' = [DQ] @ ''message'' @ [DQ]"
  "appendString sh ''timestamp'' = [DQ] @ ''timestamp'' @ [DQ]"
  by (simp_all add: appendString_def quoteBody.simps htmlSafe_def)

lemma coerceUTF8_keys:
  "coerceUTF8 ''fields'' = ''fields''" "coerceUTF8 ''level'' = ''level''"
  "coerceUTF8 ''message'' = ''message''" "coerceUTF8 ''timestamp'' = ''timestamp''"
  "coerceUTF8 ''method'' = ''method''" "coerceUTF8 ''path'' = ''path''"
  "coerceUTF8 ''status'' = ''status''" "coerceUTF8 ''size'' = ''size''"
  "coerceUTF8 ''latency'' = ''latency''" "coerceUTF8 ''caller_info'' = ''caller_info''"
  by (simp_all add: coerceUTF8_ascii coerceUTF8.simps(1))

lemma coerceUTF8_levels:
  "coerceUTF8 ''debug'' = ''debug''" "coerceUTF8 ''info'' = ''info''"
  "coerceUTF8 ''warn'' = ''warn''" "coerceUTF8 ''error'' = ''error''"
  "coerceUTF8 ''fatal'' = ''fatal''" "coerceUTF8 ''unknown'' = ''unknown''"
  by (simp_all add: coerceUTF8_ascii coerceUTF8.simps(1))

lemma JSONFormatter_text:
  "sh = shortEscapes env \<Longrightarrow>
   JSONFormatter env lv m f =
     Inr (''{'' @ appendString sh ''fields'' @ '':'' @ marshalLogFields sh f @ '','' @
          appendString sh ''level'' @ '':'' @ appendString sh (LogLevel_String lv) @ '','' @
          appendString sh ''message'' @ '':'' @ appendString sh m @ '','' @
          appendString sh ''timestamp'' @ '':'' @ appendString sh (now env) @ ''}'')"
  unfolding JSONFormatter_def Let_def marshalMap_def sort_entry by simp



lemma parseMembers_step:
  assumes v: "parseValue n (vtext @ x # t) = Some (v, x # t)"
  shows "parseMembers (Suc n) (appendString sh k @ '':'' @ vtext @ x # t) =
     (if x = CHR '','' then
        map_option (\<lambda>(ms, rest). ((coerceUTF8 k, v) # ms, rest)) (parseMembers n t)
      else if x = CHR ''}'' then Some ([(coerceUTF8 k, v)], t)
      else None)"
proof -
  have k: "parseChars (quoteBody sh k @ DQ # CHR '':'' # vtext @ x # t) =
      Some (coerceUTF8 k, CHR '':'' # vtext @ x # t)"
    by (rule parse_quoteBody)
  show ?thesis by (simp add: appendString_def k v)
qed

lemma parseMembers_strings:
  "kvs \<noteq> [] \<Longrightarrow> length kvs < n \<Longrightarrow>
   parseMembers n
     (Join (map (\<lambda>(k, v). appendString sh k @ '':'' @ appendString sh v) kvs) '','' @ ''}'' @ rest) =
   Some (map (\<lambda>(k, v). (coerceUTF8 k, JString (coerceUTF8 v))) kvs, rest)"
proof (induction kvs arbitrary: n)
  case Nil
  then show ?case by simp
next
  case (Cons kv kvs)
  obtain k v where kv: "kv = (k, v)" by (cases kv)
  obtain m where n: "n = Suc (Suc m)" using Cons.prems(2)
    by (cases n; cases "n - 1") auto
  show ?case
  proof (cases kvs)
    case Nil
    have "parseValue (Suc m) (appendString sh v @ CHR ''}'' # rest) =
        Some (JString (coerceUTF8 v), CHR ''}'' # rest)"
      by (rule parseValue_string)
    from parseMembers_step [OF this, where k = k and sh = sh]
    show ?thesis unfolding Nil kv n by simp
  next
    case (Cons kv' r)
    let ?t = "Join (map (\<lambda>(k, v). appendString sh k @ '':'' @ appendString sh v) kvs) '','' @ ''}'' @ rest"
    have ih: "parseMembers (Suc m) ?t =
        Some (map (\<lambda>(k, v). (coerceUTF8 k, JString (coerceUTF8 v))) kvs, rest)"
      using Cons.IH [of "Suc m"] Cons.prems n Cons by simp
    have "parseValue (Suc m) (appendString sh v @ CHR '','' # ?t) =
        Some (JString (coerceUTF8 v), CHR '','' # ?t)"
      by (rule parseValue_string)
    from parseMembers_step [OF this, where k = k and sh = sh]
    have "parseMembers (Suc (Suc m)) (appendString sh k @ '':'' @ appendString sh v @ CHR '','' # ?t) =
        Some ((coerceUTF8 k, JString (coerceUTF8 v)) #
              map (\<lambda>(k, v). (coerceUTF8 k, JString (coerceUTF8 v))) kvs, rest)"
      using ih by simp
    then show ?thesis unfolding kv n Cons by simp
  qed
qed

lemma appendString_Cons: "appendString sh s = DQ # quoteBody sh s @ [DQ]"
  by (simp add: appendString_def)

lemma parseValue_object:
  assumes n: "length kvs + 1 < n"
  shows "parseValue n
     (''{'' @ Join (map (\<lambda>(k, v). appendString sh k @ '':'' @ appendString sh v) kvs) '','' @ ''}'' @
      rest) =
   Some (JObject (map (\<lambda>(k, v). (coerceUTF8 k, JString (coerceUTF8 v))) kvs), rest)"
proof -
  obtain m where m: "n = Suc m" using n by (cases n) auto
  show ?thesis
  proof (cases kvs)
    case Nil
    then show ?thesis unfolding m by simp
  next
    case (Cons kv r)
    obtain k v where kv: "kv = (k, v)" by (cases kv)
    let ?t = "Join (map (\<lambda>(k, v). appendString sh k @ '':'' @ appendString sh v) kvs) '','' @ ''}'' @ rest"
    have "kvs \<noteq> []" "length kvs < m" using Cons n m by simp_all
    then have p: "parseMembers m ?t =
        Some (map (\<lambda>(k, v). (coerceUTF8 k, JString (coerceUTF8 v))) kvs, rest)"
      by (rule parseMembers_strings)
    have "\<exists>u. ?t = DQ # u" unfolding Cons kv
      by (cases r) (simp_all add: appendString_Cons)
    then obtain u where u: "?t = DQ # u" by blast
    have "parseValue (Suc m) (CHR ''{'' # ?t) =
        Some (JObject (map (\<lambda>(k, v). (coerceUTF8 k, JString (coerceUTF8 v))) kvs), rest)"
      using p unfolding u by simp
    then show ?thesis unfolding m by simp
  qed
qed

lemma marshalLogFields_text:
  "marshalLogFields sh f =
     ''{'' @ Join (map (\<lambda>(k, v). appendString sh k @ '':'' @ appendString sh v)
                  (filter (\<lambda>(k, v). v \<noteq> []) (declaredFields f))) '','' @ ''}''"
  by (simp add: marshalLogFields_def declaredFields_def)

lemma declared_keys:
  "map (\<lambda>(k, v). (coerceUTF8 k, JString (coerceUTF8 v)))
     (filter (\<lambda>(k, v). v \<noteq> []) (declaredFields f)) =
   map (\<lambda>(k, v). (k, JString (coerceUTF8 v)))
     (filter (\<lambda>(k, v). v \<noteq> []) (declaredFields f))"
proof (rule map_cong [OF refl])
  fix kv assume "kv \<in> set (filter (\<lambda>(k, v). v \<noteq> []) (declaredFields f))"
  then have "kv \<in> set (declaredFields f)" by simp
  then have "coerceUTF8 (fst kv) = fst kv"
    by (auto simp: declaredFields_def coerceUTF8_keys)
  then show "(case kv of (k, v) \<Rightarrow> (coerceUTF8 k, JString (coerceUTF8 v))) =
      (case kv of (k, v) \<Rightarrow> (k, JString (coerceUTF8 v)))"
    by (cases kv) simp
qed

lemma parseValue_fields:
  assumes n: "8 \<le> n"
  shows "parseValue n (marshalLogFields sh f @ rest) =
     Some (JObject (map (\<lambda>(k, v). (k, JString (coerceUTF8 v)))
             (filter (\<lambda>(k, v). v \<noteq> []) (declaredFields f))), rest)"
proof -
  have "length (filter (\<lambda>(k, v). v \<noteq> []) (declaredFields f)) \<le> length (declaredFields f)"
    by (rule length_filter_le)
  then have "length (filter (\<lambda>(k, v). v \<noteq> []) (declaredFields f)) + 1 < n"
    using n by (simp add: declaredFields_def)
  from parseValue_object [OF this, where rest = rest and sh = sh] show ?thesis
    unfolding marshalLogFields_text declared_keys by simp
qed

lemma parse_JSONFormatter:
  assumes r: "JSONFormatter env lv m f = Inr r"
  shows "parseJSON r =
     Some (JObject
       [(''fields'', JObject (map (\<lambda>(k, v). (k, JString (coerceUTF8 v)))
                       (filter (\<lambda>(k, v). v \<noteq> []) (declaredFields f)))),
        (''level'', JString (coerceUTF8 (LogLevel_String lv))),
        (''message'', JString (coerceUTF8 m)),
        (''timestamp'', JString (coerceUTF8 (now env)))])"
proof -
  define sh where "sh = shortEscapes env"
  let ?r3 = "appendString sh ''timestamp'' @ '':'' @ appendString sh (now env) @ ''}''"
  let ?r2 = "appendString sh ''message'' @ '':'' @ appendString sh m @ CHR '','' # ?r3"
  let ?r1 = "appendString sh ''level'' @ '':'' @ appendString sh (LogLevel_String lv) @ CHR '','' # ?r2"
  let ?r0 = "appendString sh ''fields'' @ '':'' @ marshalLogFields sh f @ CHR '','' # ?r1"
  let ?F = "JObject (map (\<lambda>(k, v). (k, JString (coerceUTF8 v)))
                       (filter (\<lambda>(k, v). v \<noteq> []) (declaredFields f)))"
  let ?J = "JObject [(''fields'', ?F),
             (''level'', JString (coerceUTF8 (LogLevel_String lv))),
             (''message'', JString (coerceUTF8 m)),
             (''timestamp'', JString (coerceUTF8 (now env)))]"
  have shape: "r = CHR ''{'' # ?r0" using r JSONFormatter_text [OF sh_def, of lv m f] by simp
  have "11 \<le> length r" unfolding shape by (simp add: appendString_keys)
  define n where "n = length r - 11"
  have n: "length r = Suc (Suc (Suc (Suc (Suc (Suc (n + 5))))))"
    using \<open>11 \<le> length r\<close> unfolding n_def by simp
  have p3: "parseMembers (Suc (Suc (n + 5))) ?r3 =
      Some ([(''timestamp'', JString (coerceUTF8 (now env)))], [])"
    using parseMembers_step [OF parseValue_string [where n = "n + 5" and s = "now env"
          and rest = "CHR ''}'' # []" and sh = sh], where k = "''timestamp''" and sh = sh]
    by (simp add: coerceUTF8_keys)
  have p2: "parseMembers (Suc (Suc (Suc (n + 5)))) ?r2 =
      Some ([(''message'', JString (coerceUTF8 m)),
             (''timestamp'', JString (coerceUTF8 (now env)))], [])"
    using parseMembers_step [OF parseValue_string [where n = "Suc (n + 5)" and s = m
          and rest = "CHR '','' # ?r3" and sh = sh], where k = "''message''" and sh = sh] p3
    by (simp add: coerceUTF8_keys)
  have p1: "parseMembers (Suc (Suc (Suc (Suc (n + 5))))) ?r1 =
      Some ([(''level'', JString (coerceUTF8 (LogLevel_String lv))),
             (''message'', JString (coerceUTF8 m)),
             (''timestamp'', JString (coerceUTF8 (now env)))], [])"
    using parseMembers_step [OF parseValue_string
        [where n = "Suc (Suc (n + 5))" and s = "LogLevel_String lv" and rest = "CHR '','' # ?r2"
          and sh = sh], where k = "''level''" and sh = sh] p2
    by (simp add: coerceUTF8_keys)
  have v: "parseValue (Suc (Suc (Suc (Suc (n + 5))))) (marshalLogFields sh f @ CHR '','' # ?r1) =
      Some (?F, CHR '','' # ?r1)"
    by (rule parseValue_fields) simp
  have p0: "parseMembers (Suc (Suc (Suc (Suc (Suc (n + 5)))))) ?r0 =
      Some ([(''fields'', ?F),
             (''level'', JString (coerceUTF8 (LogLevel_String lv))),
             (''message'', JString (coerceUTF8 m)),
             (''timestamp'', JString (coerceUTF8 (now env)))], [])"
    using parseMembers_step [OF v, where k = "''fields''" and sh = sh] p1
    by (simp add: coerceUTF8_keys)
  have q: "\<exists>u. ?r0 = DQ # u" by (simp add: appendString_Cons)
  then obtain u where u: "?r0 = DQ # u" by blast
  have pv: "parseValue (Suc N) (CHR ''{'' # DQ # u) =
      map_option (\<lambda>(ms, rest). (JObject ms, rest)) (parseMembers N (DQ # u))" for N
    by simp
  have "parseValue (Suc (Suc (Suc (Suc (Suc (Suc (n + 5))))))) (CHR ''{'' # ?r0) = Some (?J, [])"
    unfolding u pv using p0 [unfolded u] by simp
  then have "parseValue (length r) r = Some (?J, [])"
    unfolding n [symmetric] shape [symmetric] .
  then show ?thesis unfolding parseJSON_def by simp
qed

lemma coerceUTF8_valid: "validUTF8 s \<Longrightarrow> coerceUTF8 s = s"
proof (induction "length s" arbitrary: s rule: less_induct)
  case less
  show ?case
  proof (cases s)
    case Nil
    then show ?thesis by (simp add: coerceUTF8.simps(1))
  next
    case (Cons b bs)
    show ?thesis
    proof (cases "(of_char b :: nat) < 0x80")
      case True
      have "validUTF8 bs" using less.prems unfolding Cons validUTF8_ascii [OF True] .
      then have "coerceUTF8 bs = bs" using less.hyps [of bs] Cons by simp
      then show ?thesis unfolding Cons coerceUTF8_ascii [OF True] by simp
    next
      case False
      let ?n = "runeSize (of_char b)"
      have m: "multiByte (b # bs)" and v: "validUTF8 (drop ?n (b # bs))"
        using less.prems unfolding Cons validUTF8_multi [OF False] by simp_all
      have "2 \<le> ?n" using multiByte_size [OF m] by simp
      then have "length (drop ?n (b # bs)) < length s" unfolding Cons by simp
      then have "coerceUTF8 (drop ?n (b # bs)) = drop ?n (b # bs)"
        using less.hyps v by blast
      then show ?thesis unfolding Cons coerceUTF8_copy [OF False m] by simp
    qed
  qed
qed

lemma coerceUTF8_plain: "\<forall>c \<in> set s. (of_char c :: nat) < 0x80 \<Longrightarrow> coerceUTF8 s = s"
  by (induction s) (simp_all add: coerceUTF8.simps(1) coerceUTF8_ascii)

lemma isDigit_ascii: "isDigit c \<Longrightarrow> (of_char c :: nat) < 0x80"
  by (auto simp: isDigit_def)

lemma rfc3339_ascii: "rfc3339 s \<Longrightarrow> c \<in> set s \<Longrightarrow> (of_char c :: nat) < 0x80"
proof -
  assume "rfc3339 s" "c \<in> set s"
  then have "isDigit c \<or> c \<in> set ''-T:Z+''" by (rule rfc3339_chars)
  then show ?thesis using isDigit_ascii [of c] by auto
qed

lemma coerceUTF8_rfc3339: "rfc3339 s \<Longrightarrow> coerceUTF8 s = s"
  by (rule coerceUTF8_plain) (blast dest: rfc3339_ascii)

lemma LogLevel_String_table:
  "LogLevel_String LevelDebug = ''debug''" "LogLevel_String LevelInfo = ''info''"
  "LogLevel_String LevelWarn = ''warn''" "LogLevel_String LevelError = ''error''"
  "LogLevel_String LevelFatal = ''fatal''"
  by (simp_all add: LogLevel_String_def LevelDebug_def LevelInfo_def LevelWarn_def
      LevelError_def LevelFatal_def)

lemma coerceUTF8_LogLevel: "coerceUTF8 (LogLevel_String lv) = LogLevel_String lv"
  by (simp add: LogLevel_String_def coerceUTF8_levels)

text \<open>
  The bytes of the JSON line: none is below 0x20, so the line has no ESC byte and no
  newline.
\<close>

lemma hexDigit_printable: "n < 16 \<Longrightarrow> (0x20 :: nat) \<le> of_char (hexDigit n)"
proof -
  have "\<forall>n \<in> set [0..<16]. (0x20 :: nat) \<le> of_char (hexDigit n)" by code_simp
  moreover assume "n < 16"
  ultimately show ?thesis by simp
qed

lemma escapeByte_printable:
  assumes "c \<in> set (escapeByte sh b)" and "\<not> htmlSafe b" and "(of_char b :: nat) < 0x80"
  shows "(0x20 :: nat) \<le> of_char c"
proof -
  let ?x = "of_char b :: nat"
  have h: "(0x20 :: nat) \<le> of_char (hexDigit (?x div 16))"
    "(0x20 :: nat) \<le> of_char (hexDigit (?x mod 16))"
    using assms(3) by (simp_all add: hexDigit_printable)
  consider "b = BSL \<or> b = DQ" "c = BSL \<or> c = b"
    | "c \<in> set (BSL # ''bfnrtu0'')"
    | "c = hexDigit (?x div 16) \<or> c = hexDigit (?x mod 16)"
    using assms(1) unfolding escapeByte_def by (auto split: if_splits)
  then show ?thesis
  proof cases
    case 1
    then show ?thesis by auto
  next
    case 2
    then show ?thesis by auto
  next
    case 3
    then show ?thesis using h by auto
  qed
qed

lemma quoteBody_printable: "c \<in> set (quoteBody sh s) \<Longrightarrow> (0x20 :: nat) \<le> of_char c"
proof (induction "length s" arbitrary: s rule: less_induct)
  case less
  show ?case
  proof (cases s)
    case Nil
    then show ?thesis using less.prems by (simp add: quoteBody.simps(1))
  next
    case (Cons b bs)
    have ih: "c \<in> set (quoteBody sh t) \<Longrightarrow> (0x20 :: nat) \<le> of_char c"
      if "length t < length s" for t
      using less.hyps that by blast
    have ih1: "c \<in> set (quoteBody sh bs) \<Longrightarrow> (0x20 :: nat) \<le> of_char c"
      using ih [of bs] Cons by simp
    show ?thesis
    proof (cases "(of_char b :: nat) < 0x80")
      case True
      note ascii = True
      show ?thesis
      proof (cases "htmlSafe b")
        case True
        have "c = b \<or> c \<in> set (quoteBody sh bs)"
          using less.prems unfolding Cons quoteBody_safe [OF ascii True] by simp
        then show ?thesis using ih1 True by (auto simp: htmlSafe_def)
      next
        case False
        have "c \<in> set (escapeByte sh b) \<or> c \<in> set (quoteBody sh bs)"
          using less.prems unfolding Cons quoteBody_escape [OF ascii False] by simp
        then show ?thesis using ih1 escapeByte_printable [OF _ False ascii] by blast
      qed
    next
      case False
      note high = False
      show ?thesis
      proof (cases "multiByte (b # bs)")
        case False
        have "c \<in> set (BSL # ''ufffd'') \<or> c \<in> set (quoteBody sh bs)"
          using less.prems unfolding Cons quoteBody_invalid [OF high False] by simp
        then show ?thesis using ih1 by auto
      next
        case True
        let ?n = "runeSize (of_char b)"
        let ?d = "drop ?n (b # bs)"
        have "2 \<le> ?n" using multiByte_size [OF True] by simp
        then have "length ?d < length s" unfolding Cons by simp
        then have ihd: "c \<in> set (quoteBody sh ?d) \<Longrightarrow> (0x20 :: nat) \<le> of_char c"
          by (rule ih)
        show ?thesis
        proof (cases "runeOf (b # bs) = 0x2028 \<or> runeOf (b # bs) = 0x2029")
          case True
          have "c \<in> set (BSL # ''u202'') \<or> c = hexDigit (runeOf (b # bs) mod 16) \<or>
              c \<in> set (quoteBody sh ?d)"
            using less.prems unfolding Cons quoteBody_separator [OF high \<open>multiByte (b # bs)\<close> True]
            by simp
          moreover have "(0x20 :: nat) \<le> of_char (hexDigit (runeOf (b # bs) mod 16))"
            by (rule hexDigit_printable) simp
          ultimately show ?thesis using ihd by auto
        next
          case False
          then have ne: "runeOf (b # bs) \<noteq> 0x2028" "runeOf (b # bs) \<noteq> 0x2029" by simp_all
          have "c \<in> set (take ?n (b # bs)) \<or> c \<in> set (quoteBody sh ?d)"
            using less.prems unfolding Cons quoteBody_copy [OF high True ne] by simp
          moreover have "(0x80 :: nat) \<le> of_char c" if "c \<in> set (take ?n (b # bs))"
            using multiByte_take_high [OF True] that by simp
          ultimately show ?thesis using ihd by fastforce
        qed
      qed
    qed
  qed
qed

lemma appendString_printable:
  "c \<in> set (appendString sh s) \<Longrightarrow> (0x20 :: nat) \<le> of_char c"
  using quoteBody_printable [of c sh s] by (auto simp: appendString_def)

lemma member_printable:
  "c \<in> set (appendString sh k @ '':'' @ appendString sh v) \<Longrightarrow> (0x20 :: nat) \<le> of_char c"
  using appendString_printable [of c sh k] appendString_printable [of c sh v] by auto

lemma marshalLogFields_printable:
  assumes "c \<in> set (marshalLogFields sh f)"
  shows "(0x20 :: nat) \<le> of_char c"
proof -
  let ?ms = "map (\<lambda>(k, v). appendString sh k @ '':'' @ appendString sh v)
      (filter (\<lambda>(k, v). v \<noteq> []) (declaredFields f))"
  have x: "(0x20 :: nat) \<le> of_char c" if "x \<in> set ?ms" "c \<in> set x" for x
  proof -
    from that(1) obtain kv where "x = (case kv of (k, v) \<Rightarrow>
        appendString sh k @ '':'' @ appendString sh v)"
      by auto
    then have "x = appendString sh (fst kv) @ '':'' @ appendString sh (snd kv)"
      by (simp add: case_prod_beta)
    then show ?thesis using that(2) member_printable by blast
  qed
  have j: "(0x20 :: nat) \<le> of_char c" if "c \<in> set (Join ?ms '','')"
  proof -
    from Join_chars [OF that] have "c \<in> set '','' \<or> (\<exists>x \<in> set ?ms. c \<in> set x)" .
    then show ?thesis
    proof
      assume "c \<in> set '',''"
      then show ?thesis by simp
    next
      assume "\<exists>x \<in> set ?ms. c \<in> set x"
      then obtain x where "x \<in> set ?ms" "c \<in> set x" by blast
      then show ?thesis by (rule x)
    qed
  qed
  have "c = CHR ''{'' \<or> c = CHR ''}'' \<or> c \<in> set (Join ?ms '','')"
    using assms unfolding marshalLogFields_text by auto
  then show ?thesis using j by auto
qed

lemma JSONFormatter_printable:
  assumes "JSONFormatter env lv m f = Inr r" and "c \<in> set r"
  shows "(0x20 :: nat) \<le> of_char c"
proof -
  define sh where "sh = shortEscapes env"
  have "r = ''{'' @ appendString sh ''fields'' @ '':'' @ marshalLogFields sh f @ '','' @
          appendString sh ''level'' @ '':'' @ appendString sh (LogLevel_String lv) @ '','' @
          appendString sh ''message'' @ '':'' @ appendString sh m @ '','' @
          appendString sh ''timestamp'' @ '':'' @ appendString sh (now env) @ ''}''"
    using assms(1) JSONFormatter_text [OF sh_def, of lv m f] by simp
  then have "c \<in> set ''{:,}'' \<or> c \<in> set (marshalLogFields sh f) \<or>
      c \<in> set (appendString sh ''fields'') \<or> c \<in> set (appendString sh ''level'') \<or>
      c \<in> set (appendString sh (LogLevel_String lv)) \<or>
      c \<in> set (appendString sh ''message'') \<or> c \<in> set (appendString sh m) \<or>
      c \<in> set (appendString sh ''timestamp'') \<or> c \<in> set (appendString sh (now env))"
    using assms(2) by auto
  then show ?thesis using marshalLogFields_printable appendString_printable by auto
qed

lemma JSONFormatter_no_ESC: "JSONFormatter env lv m f = Inr r \<Longrightarrow> ESC \<notin> set r"
  using JSONFormatter_printable [of env lv m f r ESC] by auto

lemma fillCaller_escFree:
  assumes "escFreeFields flds" and "escFree (fst (captured callers))"
  shows "escFreeFields (fillCaller callers flds)"
proof -
  have "set (shortPath (fst (captured callers))) \<subseteq> set (fst (captured callers))"
    using shortPath_suffix by (rule set_mono_suffix)
  then have p: "ESC \<notin> set (shortPath (fst (captured callers)))"
    using assms(2) unfolding escFree_def by blast
  have i: "ESC \<notin> set (Itoa (snd (captured callers)))"
    using Itoa_chars [of ESC] by (auto simp: isDigit_def)
  show ?thesis using assms(1) p i by (simp add: fillCaller_def escFreeFields_def escFree_def)
qed

lemma ReplaceAll_escFree: "escFree s \<Longrightarrow> escFree (ReplaceAll s LF '' '')"
  by (auto simp: escFree_def ReplaceAll_map)

lemma lineGroups_escFree:
  assumes "levelStyle lv = Some (ls, lc)" and "escFree ts" and "escFree m" and "escFreeFields f"
  shows "\<forall>g \<in> set (lineGroups ls lc ts m f). ESC \<notin> set (snd g)"
proof
  fix g assume "g \<in> set (lineGroups ls lc ts m f)"
  from lineGroups_payload [OF this] assms(2-4) levelStyle_clean [OF assms(1)]
  show "ESC \<notin> set (snd g)" unfolding escFreeFields_def escFree_def by auto
qed

lemma Join_escFree:
  "\<forall>x \<in> set xs. ESC \<notin> set x \<Longrightarrow> ESC \<notin> set sep \<Longrightarrow> ESC \<notin> set (Join xs sep)"
  using Join_chars [of ESC xs sep] by blast










lemma captured_cases:
  "(1 < length callers \<longrightarrow> captured callers = callers ! 1) \<and>
   (length callers \<le> 1 \<longrightarrow> captured callers = ([], 0))"
  by (simp add: captured_def)

section \<open>The claims\<close>

subsection \<open>C6: stripping twice\<close>

text \<open>
  C6, as amended. \<open>stripColors\<close> is a function of its argument alone. On a string with no
  escape sequence it is the identity. On a string in which every ESC byte begins an escape
  sequence, which is what the colour library writes around text that has no ESC byte of
  its own, the result has no ESC byte at all, and stripping it again changes nothing:
  there \<open>stripColors (stripColors s) = stripColors s\<close>. One pass works from left to right:
  behind a prefix \<open>u\<close> without ESC byte it deletes the match that starts there and goes on
  with what follows the match, and it does not look at what the deletions bring together.
  So in general a second pass changes the result exactly when the first pass has left an
  escape sequence behind: \<open>stripColors (stripColors s) = stripColors s\<close> holds if and only
  if \<open>stripColors s\<close> has no escape sequence.
\<close>

theorem stripColors_idempotent_iff:
  "(\<not> hasCSI s \<longrightarrow> stripColors s = s) \<and>
   (escapesMatch s \<longrightarrow>
      ESC \<notin> set (stripColors s) \<and> stripColors (stripColors s) = stripColors s) \<and>
   (ESC \<notin> set u \<and> match_csi v = Some r \<longrightarrow> stripColors (u @ v) = u @ stripColors r) \<and>
   (stripColors (stripColors s) = stripColors s \<longleftrightarrow> \<not> hasCSI (stripColors s))"
proof -
  have a: "stripColors (stripColors s) \<noteq> stripColors s" if "hasCSI (stripColors s)"
    using stripColors_shrinks [OF that] by auto
  have b: "ESC \<notin> set (stripColors s) \<and> stripColors (stripColors s) = stripColors s"
    if "escapesMatch s"
  proof -
    have e: "ESC \<notin> set (stripColors s)" using that by (rule stripColors_no_ESC)
    then have "\<not> hasCSI (stripColors s)" by (rule no_ESC_no_CSI)
    then show ?thesis using e by (simp add: stripColors_no_CSI)
  qed
  have c: "stripColors (u @ v) = u @ stripColors r" if "ESC \<notin> set u" "match_csi v = Some r"
    using that by (simp add: stripColors_plain stripColors_match)
  show ?thesis using a b c by (auto simp: stripColors_no_CSI)
qed

text \<open>
  The theorem at the plain string \<open>red\<close>, at the same word in colour,
  ESC \<open>[31mred\<close> ESC \<open>[0m\<close>, at a reset sequence behind the prefix \<open>[INFO]\<close>, and at a lone
  ESC followed by \<open>[1\<close>, which no pass removes.
\<close>

theorem stripColors_idempotent_witness:
  "\<not> hasCSI ''red'' \<and> stripColors ''red'' = ''red'' \<and>
   escapesMatch ([ESC] @ ''[31mred'' @ [ESC] @ ''[0m'') \<and>
   ESC \<notin> set (stripColors ([ESC] @ ''[31mred'' @ [ESC] @ ''[0m'')) \<and>
   stripColors (stripColors ([ESC] @ ''[31mred'' @ [ESC] @ ''[0m'')) =
     stripColors ([ESC] @ ''[31mred'' @ [ESC] @ ''[0m'') \<and>
   ESC \<notin> set ''[INFO] '' \<and> match_csi ([ESC] @ ''[0m ok'') = Some '' ok'' \<and>
   stripColors (''[INFO] '' @ [ESC] @ ''[0m ok'') = ''[INFO] '' @ stripColors '' ok'' \<and>
   \<not> hasCSI (stripColors ([ESC] @ ''[1'')) \<and>
   stripColors (stripColors ([ESC] @ ''[1'')) =
     stripColors ([ESC] @ ''[1'')"
proof -
  let ?red = "[ESC] @ ''[31mred'' @ [ESC] @ ''[0m''"
  let ?odd = "[ESC] @ ''[1''"
  have a: "\<not> hasCSI ''red''" by (simp add: match_csi_def)
  have e: "escapesMatch ?red" by (simp add: match_csi_def is_param_def is_final_def)
  have u: "ESC \<notin> set ''[INFO] ''" by simp
  have m: "match_csi ([ESC] @ ''[0m ok'') = Some '' ok''"
    by (simp add: match_csi_def is_param_def is_final_def)
  have s: "stripColors ?odd = ?odd"
    by (simp add: match_csi_def is_param_def is_final_def)
  have n: "\<not> hasCSI (stripColors ?odd)" unfolding s by (simp add: match_csi_def is_param_def is_final_def)
  note A = stripColors_idempotent_iff [where s = "''red''" and u = "''[INFO] ''"
      and v = "[ESC] @ ''[0m ok''" and r = "'' ok''"]
  note B = stripColors_idempotent_iff [where s = ?red and u = "''[INFO] ''"
      and v = "[ESC] @ ''[0m ok''" and r = "'' ok''"]
  note C = stripColors_idempotent_iff [where s = ?odd and u = "''[INFO] ''"
      and v = "[ESC] @ ''[0m ok''" and r = "'' ok''"]
  have 1: "stripColors ''red'' = ''red''" using A a by blast
  have 2: "ESC \<notin> set (stripColors ?red) \<and> stripColors (stripColors ?red) = stripColors ?red"
    using B e by blast
  have 3: "stripColors (''[INFO] '' @ [ESC] @ ''[0m ok'') = ''[INFO] '' @ stripColors '' ok''"
    using A u m by blast
  have 4: "stripColors (stripColors ?odd) = stripColors ?odd" using C n by blast
  show ?thesis using a e u m n 1 2 3 4 by blast
qed

text \<open>
  C6 as stated fails at the eight bytes ESC ESC \<open>[0m[0m\<close>: the first pass deletes the
  inner sequence and leaves ESC \<open>[0m\<close>, which the second pass deletes.
\<close>

theorem stripColors_not_idempotent:
  "stripColors (stripColors ([ESC, ESC] @ ''[0m[0m'')) \<noteq> stripColors ([ESC, ESC] @ ''[0m[0m'')"
  by (simp add: match_csi_def is_param_def is_final_def)

subsection \<open>C1: the level filter\<close>





subsection \<open>C7: newlines in the message\<close>

text \<open>
  C7. \<^verbatim>\<open>Log\<close> replaces every newline of the message by a space, byte for byte, so
  the message the formatter is called with has no newline; a call that is not
  suppressed is the formatter's result on that message, written to the sink.
\<close>

theorem Log_message_single_line:
  "ReplaceAll msg LF '' '' = map (\<lambda>c. if c = LF then CHR '' '' else c) msg \<and>
   LF \<notin> set (ReplaceAll msg LF '' '') \<and>
   (\<not> lv < level l \<longrightarrow>
      Log env callers l lv msg flds w =
        (case formatter l env lv (map (\<lambda>c. if c = LF then CHR '' '' else c) msg)
                (fillCaller callers flds) of
           Inl e \<Rightarrow> Inl e
         | Inr output \<Rightarrow>
             Inr (l, fst (out l ((if color l then output else stripColors output) @ [LF]) w))))"
proof -
  have m: "ReplaceAll msg LF '' '' = map (\<lambda>c. if c = LF then CHR '' '' else c) msg"
    by (rule ReplaceAll_map)
  have n: "LF \<notin> set (ReplaceAll msg LF '' '')" by (rule ReplaceAll_no_old) simp
  have "\<not> lv < level l \<Longrightarrow>
      Log env callers l lv msg flds w =
        (case formatter l env lv (map (\<lambda>c. if c = LF then CHR '' '' else c) msg)
                (fillCaller callers flds) of
           Inl e \<Rightarrow> Inl e
         | Inr output \<Rightarrow>
             Inr (l, fst (out l ((if color l then output else stripColors output) @ [LF]) w)))"
    unfolding m [symmetric] by (simp add: Log_unfold)
  with m n show ?thesis by blast
qed

text \<open>A message of two lines, logged at the minimum level, arrives as one line.\<close>

theorem Log_message_single_line_witness:
  "\<not> LevelError < level testLogger \<and>
   Log exampleEnv exampleStack testLogger LevelError (''line one'' @ [LF] @ ''line two'')
     (NewLogFields [] [] [] [] []) [] =
     Inr (testLogger,
          ''[ERROR] 2025-06-14T12:30:25Z - line one line two - src/runtime/proc.go:283'' @ [LF])"
proof -
  have lv: "\<not> LevelError < level testLogger"
    by (simp add: testLogger_def SetLevel_def)
  have r: "formatter testLogger exampleEnv LevelError
          (map (\<lambda>c. if c = LF then CHR '' '' else c) (''line one'' @ [LF] @ ''line two''))
          (fillCaller exampleStack (NewLogFields [] [] [] [] [])) =
        Inr ''[ERROR] 2025-06-14T12:30:25Z - line one line two - src/runtime/proc.go:283''"
    by code_simp
  have o: "out testLogger = bufferWrite" "color testLogger"
    by (simp_all add: testLogger_def SetLevel_def SetOutput_def NewLogger_def)
  have "Log exampleEnv exampleStack testLogger LevelError (''line one'' @ [LF] @ ''line two'')
     (NewLogFields [] [] [] [] []) [] =
     (case formatter testLogger exampleEnv LevelError
          (map (\<lambda>c. if c = LF then CHR '' '' else c) (''line one'' @ [LF] @ ''line two''))
          (fillCaller exampleStack (NewLogFields [] [] [] [] [])) of
        Inl e \<Rightarrow> Inl e
      | Inr output \<Rightarrow>
          Inr (testLogger,
               fst (out testLogger
                  ((if color testLogger then output else stripColors output) @ [LF]) [])))"
    using Log_message_single_line [of "''line one'' @ [LF] @ ''line two''" LevelError testLogger
        exampleEnv exampleStack "NewLogFields [] [] [] [] []" "[]"] lv
    by blast
  then show ?thesis unfolding r using lv by (simp add: o bufferWrite_def)
qed

subsection \<open>C8: a failed write\<close>

text \<open>
  C8. \<^verbatim>\<open>Log\<close> has no result value and drops what \<^verbatim>\<open>Fprintln\<close> returns. Whenever the
  call is suppressed or the formatter returns, \<^verbatim>\<open>Log\<close> returns normally with the
  logger as it was, whatever error the sink's \<^verbatim>\<open>Write\<close> reports; both built-in
  formatters return, so \<^verbatim>\<open>Debug\<close>, \<^verbatim>\<open>Info\<close>, \<^verbatim>\<open>Warn\<close> and \<^verbatim>\<open>Error\<close> always do. Two
  loggers whose writers act alike on the sink and differ only in the errors they report
  end a call in the same way, with the same sink.
\<close>

theorem Log_write_error_ignored:
  "(lv < level l \<or>
    (\<exists>r. formatter l env lv (ReplaceAll msg LF '' '') (fillCaller callers flds) = Inr r) \<longrightarrow>
      (\<exists>w'. Log env callers l lv msg flds w = Inr (l, w'))) \<and>
   (formatter l = defaultFormatter \<or> formatter l = JSONFormatter \<longrightarrow>
      (\<exists>w'. Debug env callers l msg flds w = Inr (l, w')) \<and>
      (\<exists>w'. Info env callers l msg flds w = Inr (l, w')) \<and>
      (\<exists>w'. Warn env callers l msg flds w = Inr (l, w')) \<and>
      (\<exists>w'. Error env callers l msg flds w = Inr (l, w'))) \<and>
   (formatter l' = formatter l \<and> level l' = level l \<and> color l' = color l \<and>
    (\<forall>p s. fst (out l' p s) = fst (out l p s)) \<longrightarrow>
      map_sum id snd (Log env callers l' lv msg flds w) =
      map_sum id snd (Log env callers l lv msg flds w))"
proof -
  have a: "lv < level l \<or>
    (\<exists>r. formatter l env lv (ReplaceAll msg LF '' '') (fillCaller callers flds) = Inr r) \<Longrightarrow>
      \<exists>w'. Log env callers l lv msg flds w = Inr (l, w')" for lv callers
    by (auto simp: Log_unfold)
  have five: "LevelDebug \<in> set levels" "LevelInfo \<in> set levels" "LevelWarn \<in> set levels"
    "LevelError \<in> set levels"
    by (simp_all add: levels_def)
  have b: "formatter l = defaultFormatter \<or> formatter l = JSONFormatter \<Longrightarrow>
      lv \<in> set levels \<Longrightarrow> \<exists>w'. Log env callers l lv msg flds w = Inr (l, w')" for lv callers
    using defaultFormatter_returns JSONFormatter_returns by (intro a) metis
  have c: "formatter l' = formatter l \<and> level l' = level l \<and> color l' = color l \<and>
    (\<forall>p s. fst (out l' p s) = fst (out l p s)) \<Longrightarrow>
      map_sum id snd (Log env callers l' lv msg flds w) =
      map_sum id snd (Log env callers l lv msg flds w)"
    by (auto simp: Log_unfold split: sum.splits)
  show ?thesis unfolding Debug_def Info_def Warn_def Error_def
    using a [of lv callers] b [OF _ five(1)] b [OF _ five(2)] b [OF _ five(3)] b [OF _ five(4)] c
    by blast
qed

text \<open>
  A logger whose sink fails every write: the Info call returns, logger and sink as they
  were, exactly as it does on a sink that discards what it is given without an error.
\<close>

theorem Log_write_error_ignored_witness:
  "snd (failingWrite ''lost'' ''kept'') \<noteq> None \<and>
   Info exampleEnv exampleStack (NewLogger failingWrite ''t'') ''lost'' (NewLogFields [] [] [] [] [])
      ''kept'' = Inr (NewLogger failingWrite ''t'', ''kept'') \<and>
   map_sum id snd (Log exampleEnv exampleStack (NewLogger failingWrite ''t'') LevelInfo ''lost''
      (NewLogFields [] [] [] [] []) ''kept'') =
   map_sum id snd (Log exampleEnv exampleStack (NewLogger (\<lambda>p s. (s, None)) ''t'') LevelInfo ''lost''
      (NewLogFields [] [] [] [] []) ''kept'')"
proof -
  let ?l = "NewLogger failingWrite ''t''"
  let ?d = "NewLogger (\<lambda>p s. (s, None)) ''t'' :: string Logger"
  have f: "formatter ?l = defaultFormatter" by (simp add: NewLogger_def)
  have eq: "formatter ?l = formatter ?d \<and> level ?l = level ?d \<and> color ?l = color ?d \<and>
      (\<forall>p s. fst (out ?l p s) = fst (out ?d p s))"
    by (simp add: NewLogger_def failingWrite_def)
  from f Log_write_error_ignored [where l = ?l and env = exampleEnv and callers = exampleStack
      and flds = "NewLogFields [] [] [] [] []" and msg = "''lost''" and w = "''kept''"]
  obtain w' where i: "Info exampleEnv exampleStack ?l ''lost'' (NewLogFields [] [] [] [] []) ''kept''
      = Inr (?l, w')"
    by blast
  have "w' = ''kept''" using i
    by (simp add: Info_def Log_unfold NewLogger_def failingWrite_def split: if_splits sum.splits)
  moreover have "map_sum id snd (Log exampleEnv exampleStack ?l LevelInfo ''lost''
      (NewLogFields [] [] [] [] []) ''kept'') =
   map_sum id snd (Log exampleEnv exampleStack ?d LevelInfo ''lost''
      (NewLogFields [] [] [] [] []) ''kept'')"
    using eq Log_write_error_ignored [where l = ?d and l' = ?l and env = exampleEnv
        and callers = exampleStack and lv = LevelInfo
        and flds = "NewLogFields [] [] [] [] []" and msg = "''lost''" and w = "''kept''"]
    by blast
  ultimately show ?thesis using i by (simp add: failingWrite_def)
qed

subsection \<open>C9: LogCtx\<close>

text \<open>
  C9, as amended. \<^verbatim>\<open>LogCtx\<close> never reads its context: any two contexts give the same
  result. It calls \<^verbatim>\<open>Log\<close> with the same level, message and fields from one frame
  deeper. A suppressed call, and a call whose fields carry a caller info, end exactly as
  the direct \<^verbatim>\<open>Log\<close> call in the same place. With an empty caller info the two differ in
  the location captured: \<^verbatim>\<open>LogCtx\<close> behaves as \<^verbatim>\<open>Log\<close> given the location of the place
  that called \<^verbatim>\<open>LogCtx\<close> (the first entry of the stack), where a direct \<^verbatim>\<open>Log\<close> call
  captures the second entry, the caller of its caller.
\<close>

theorem LogCtx_delegates:
  "LogCtx env callers l ctx lv msg flds w = LogCtx env callers l ctx' lv msg flds w \<and>
   (lv < level l \<or> CallerInfo flds \<noteq> [] \<longrightarrow>
      LogCtx env callers l ctx lv msg flds w = Log env callers l lv msg flds w) \<and>
   (CallerInfo flds = [] \<longrightarrow>
      LogCtx env callers l ctx lv msg flds w =
      Log env callers l lv msg
        (flds\<lparr>CallerInfo :=
           shortPath (fst (if callers = [] then ([], 0) else hd callers)) @ '':'' @
           Itoa (snd (if callers = [] then ([], 0) else hd callers))\<rparr>) w)"
  by (simp add: LogCtx_def Log_unfold fillCaller_def captured_Cons)

text \<open>
  The call of \<^verbatim>\<open>TestLoggerWithContext\<close>, with a caller info and without one: in the
  first run the context changes nothing and \<^verbatim>\<open>LogCtx\<close> is \<^verbatim>\<open>Log\<close>; in the second
  \<^verbatim>\<open>LogCtx\<close> is \<^verbatim>\<open>Log\<close> with the caller info set to the place of the call.
\<close>

theorem LogCtx_delegates_witness:
  "LogCtx exampleEnv exampleStack (NewLogger bufferWrite ''ctx'') (''userID'', ''abc123'')
      LevelInfo ''log with context'' (NewLogFields [] ''/ctx'' [] [] []\<lparr>CallerInfo := ''here:1''\<rparr>) [] =
   Log exampleEnv exampleStack (NewLogger bufferWrite ''ctx'')
      LevelInfo ''log with context'' (NewLogFields [] ''/ctx'' [] [] []\<lparr>CallerInfo := ''here:1''\<rparr>) [] \<and>
   CallerInfo (NewLogFields [] ''/ctx'' [] [] []) = [] \<and>
   LogCtx exampleEnv exampleStack (NewLogger bufferWrite ''ctx'') (''userID'', ''abc123'')
      LevelInfo ''log with context'' (NewLogFields [] ''/ctx'' [] [] []) [] =
   Log exampleEnv exampleStack (NewLogger bufferWrite ''ctx'')
      LevelInfo ''log with context''
      (NewLogFields [] ''/ctx'' [] [] []\<lparr>CallerInfo := ''app/cmd/main.go:12''\<rparr>) []"
proof -
  have e: "CallerInfo (NewLogFields [] ''/ctx'' [] [] []) = []" by (simp add: NewLogFields_def)
  have s: "CallerInfo (NewLogFields [] ''/ctx'' [] [] []\<lparr>CallerInfo := ''here:1''\<rparr>) \<noteq> []"
    by simp
  have p: "shortPath (fst (if exampleStack = [] then ([], 0) else hd exampleStack)) @ '':'' @
           Itoa (snd (if exampleStack = [] then ([], 0) else hd exampleStack)) =
           ''app/cmd/main.go:12''"
    by code_simp
  note a = LogCtx_delegates [where env = exampleEnv and callers = exampleStack
      and l = "NewLogger bufferWrite ''ctx''" and ctx = "(''userID'', ''abc123'')"
      and lv = LevelInfo and msg = "''log with context''" and w = "[]" and ctx' = "()"
      and flds = "NewLogFields [] ''/ctx'' [] [] []\<lparr>CallerInfo := ''here:1''\<rparr>"]
  note b = LogCtx_delegates [where env = exampleEnv and callers = exampleStack
      and l = "NewLogger bufferWrite ''ctx''" and ctx = "(''userID'', ''abc123'')"
      and lv = LevelInfo and msg = "''log with context''" and w = "[]" and ctx' = "()"
      and flds = "NewLogFields [] ''/ctx'' [] [] []"]
  from a s have 1: "LogCtx exampleEnv exampleStack (NewLogger bufferWrite ''ctx'') (''userID'', ''abc123'')
      LevelInfo ''log with context'' (NewLogFields [] ''/ctx'' [] [] []\<lparr>CallerInfo := ''here:1''\<rparr>) [] =
   Log exampleEnv exampleStack (NewLogger bufferWrite ''ctx'')
      LevelInfo ''log with context'' (NewLogFields [] ''/ctx'' [] [] []\<lparr>CallerInfo := ''here:1''\<rparr>) []"
    by blast
  from b e have "LogCtx exampleEnv exampleStack (NewLogger bufferWrite ''ctx'') (''userID'', ''abc123'')
      LevelInfo ''log with context'' (NewLogFields [] ''/ctx'' [] [] []) [] =
   Log exampleEnv exampleStack (NewLogger bufferWrite ''ctx'')
      LevelInfo ''log with context''
      (NewLogFields [] ''/ctx'' [] [] []\<lparr>CallerInfo :=
           shortPath (fst (if exampleStack = [] then ([], 0) else hd exampleStack)) @ '':'' @
           Itoa (snd (if exampleStack = [] then ([], 0) else hd exampleStack))\<rparr>) []"
    by blast
  then show ?thesis unfolding p using 1 e by blast
qed

text \<open>
  C9 as stated fails on the call of \<^verbatim>\<open>TestLoggerWithContext\<close>, whose fields have no
  caller info: made at line 12 of main.go, \<^verbatim>\<open>LogCtx\<close> writes the location
  \<^verbatim>\<open>app/cmd/main.go:12\<close>, and \<^verbatim>\<open>Log\<close> called in its place writes
  \<^verbatim>\<open>src/runtime/proc.go:283\<close>.
\<close>

theorem LogCtx_differs_from_Log:
  "LogCtx exampleEnv exampleStack (NewLogger bufferWrite ''ctx'') (''userID'', ''abc123'')
      LevelInfo ''log with context'' (NewLogFields [] ''/ctx'' [] [] []) [] \<noteq>
   Log exampleEnv exampleStack (NewLogger bufferWrite ''ctx'') LevelInfo
      ''log with context'' (NewLogFields [] ''/ctx'' [] [] []) []"
proof -
  let ?l = "NewLogger bufferWrite ''ctx'' :: string Logger"
  have a: "formatter ?l exampleEnv LevelInfo (ReplaceAll ''log with context'' LF '' '')
          (fillCaller ((srcFile exampleEnv, 117) # exampleStack) (NewLogFields [] ''/ctx'' [] [] [])) =
        Inr ''[INFO] 2025-06-14T12:30:25Z - log with context - app/cmd/main.go:12''"
    by code_simp
  have b: "formatter ?l exampleEnv LevelInfo (ReplaceAll ''log with context'' LF '' '')
          (fillCaller exampleStack (NewLogFields [] ''/ctx'' [] [] [])) =
        Inr ''[INFO] 2025-06-14T12:30:25Z - log with context - src/runtime/proc.go:283''"
    by code_simp
  have l: "level ?l = LevelInfo" "out ?l = bufferWrite" "color ?l"
    by (simp_all add: NewLogger_def)
  show ?thesis unfolding LogCtx_def Log_unfold a b
    by (simp add: l bufferWrite_def LevelInfo_def)
qed

subsection \<open>C10: what the setters change\<close>

text \<open>
  C10. Each setter changes the field it is named after and no other field of the logger,
  and no operation changes the name: the setters keep it, and \<^verbatim>\<open>Log\<close>, \<^verbatim>\<open>LogCtx\<close>,
  \<^verbatim>\<open>Debug\<close>, \<^verbatim>\<open>Info\<close>, \<^verbatim>\<open>Warn\<close> and \<^verbatim>\<open>Error\<close> return a logger of the same name
  whenever they return.
\<close>

theorem setters_frame:
  "level (SetLevel lv l) = lv \<and> name (SetLevel lv l) = name l \<and> out (SetLevel lv l) = out l \<and>
     color (SetLevel lv l) = color l \<and> formatter (SetLevel lv l) = formatter l \<and>
   out (SetOutput wr l) = wr \<and> name (SetOutput wr l) = name l \<and>
     level (SetOutput wr l) = level l \<and> color (SetOutput wr l) = color l \<and>
     formatter (SetOutput wr l) = formatter l \<and>
   color (SetColor b l) = b \<and> name (SetColor b l) = name l \<and> level (SetColor b l) = level l \<and>
     out (SetColor b l) = out l \<and> formatter (SetColor b l) = formatter l \<and>
   formatter (SetFormatter fn l) = fn \<and> name (SetFormatter fn l) = name l \<and>
     level (SetFormatter fn l) = level l \<and> out (SetFormatter fn l) = out l \<and>
     color (SetFormatter fn l) = color l \<and>
   (\<forall>l' w'. Log env callers l lv msg flds w = Inr (l', w') \<longrightarrow> name l' = name l) \<and>
   (\<forall>l' w'. LogCtx env callers l ctx lv msg flds w = Inr (l', w') \<longrightarrow> name l' = name l) \<and>
   (\<forall>l' w'. Debug env callers l msg flds w = Inr (l', w') \<longrightarrow> name l' = name l) \<and>
   (\<forall>l' w'. Info env callers l msg flds w = Inr (l', w') \<longrightarrow> name l' = name l) \<and>
   (\<forall>l' w'. Warn env callers l msg flds w = Inr (l', w') \<longrightarrow> name l' = name l) \<and>
   (\<forall>l' w'. Error env callers l msg flds w = Inr (l', w') \<longrightarrow> name l' = name l)"
proof -
  have setters:
    "level (SetLevel lv l) = lv \<and> name (SetLevel lv l) = name l \<and> out (SetLevel lv l) = out l \<and>
     color (SetLevel lv l) = color l \<and> formatter (SetLevel lv l) = formatter l \<and>
   out (SetOutput wr l) = wr \<and> name (SetOutput wr l) = name l \<and>
     level (SetOutput wr l) = level l \<and> color (SetOutput wr l) = color l \<and>
     formatter (SetOutput wr l) = formatter l \<and>
   color (SetColor b l) = b \<and> name (SetColor b l) = name l \<and> level (SetColor b l) = level l \<and>
     out (SetColor b l) = out l \<and> formatter (SetColor b l) = formatter l \<and>
   formatter (SetFormatter fn l) = fn \<and> name (SetFormatter fn l) = name l \<and>
     level (SetFormatter fn l) = level l \<and> out (SetFormatter fn l) = out l \<and>
     color (SetFormatter fn l) = color l"
    by (simp add: SetLevel_def SetOutput_def SetColor_def SetFormatter_def)
  have calls:
    "(\<forall>l' w'. Log env callers l lv msg flds w = Inr (l', w') \<longrightarrow> name l' = name l) \<and>
   (\<forall>l' w'. LogCtx env callers l ctx lv msg flds w = Inr (l', w') \<longrightarrow> name l' = name l) \<and>
   (\<forall>l' w'. Debug env callers l msg flds w = Inr (l', w') \<longrightarrow> name l' = name l) \<and>
   (\<forall>l' w'. Info env callers l msg flds w = Inr (l', w') \<longrightarrow> name l' = name l) \<and>
   (\<forall>l' w'. Warn env callers l msg flds w = Inr (l', w') \<longrightarrow> name l' = name l) \<and>
   (\<forall>l' w'. Error env callers l msg flds w = Inr (l', w') \<longrightarrow> name l' = name l)"
    unfolding LogCtx_def Debug_def Info_def Warn_def Error_def
    by (blast dest: Log_keeps_logger)
  from setters calls show ?thesis by (simp only: simp_thms)
qed

text \<open>
  The logger of \<^verbatim>\<open>TestLogLevelFiltering\<close>, made by \<^verbatim>\<open>NewLogger("test")\<close>: after
  \<^verbatim>\<open>SetColor(false)\<close> it still has the name, the level and the formatter it had, and
  the logger its \<^verbatim>\<open>Error\<close> call returns is still named \<^verbatim>\<open>test\<close>.
\<close>

theorem setters_frame_witness:
  "color (SetColor False testLogger) = False \<and> name (SetColor False testLogger) = ''test'' \<and>
   level (SetColor False testLogger) = LevelError \<and>
   formatter (SetColor False testLogger) = defaultFormatter \<and>
   (\<exists>l' w'. Error exampleEnv exampleStack testLogger ''this should appear''
        (NewLogFields [] [] [] [] []) [] = Inr (l', w') \<and> name l' = ''test'')"
proof -
  have t: "name testLogger = ''test''" "level testLogger = LevelError"
    "formatter testLogger = defaultFormatter"
    by (simp_all add: testLogger_def SetLevel_def SetOutput_def NewLogger_def)
  note a = setters_frame [where l = testLogger and b = False and env = exampleEnv
      and callers = exampleStack and msg = "''this should appear''"
      and flds = "NewLogFields [] [] [] [] []" and w = "[]" and lv = LevelError
      and wr = bufferWrite and fn = defaultFormatter and ctx = "()"]
  have "LevelError \<in> set levels" by (simp add: levels_def)
  then obtain r where "defaultFormatter exampleEnv LevelError
      (ReplaceAll ''this should appear'' LF '' '')
      (fillCaller ((srcFile exampleEnv, 76) # exampleStack) (NewLogFields [] [] [] [] [])) = Inr r"
    using defaultFormatter_returns by blast
  then have "\<exists>l' w'. Error exampleEnv exampleStack testLogger ''this should appear''
        (NewLogFields [] [] [] [] []) [] = Inr (l', w')"
    unfolding Error_def Log_unfold by (simp add: t)
  then obtain l' w' where e: "Error exampleEnv exampleStack testLogger ''this should appear''
        (NewLogFields [] [] [] [] []) [] = Inr (l', w')"
    by blast
  with a have "name l' = name testLogger" by blast
  then have n: "name l' = ''test''" by (simp only: t)
  have "color (SetColor False testLogger) = False \<and>
      name (SetColor False testLogger) = name testLogger \<and>
      level (SetColor False testLogger) = level testLogger \<and>
      formatter (SetColor False testLogger) = formatter testLogger"
    using a by blast
  then show ?thesis unfolding t using e n by blast
qed

subsection \<open>C4: the text line\<close>

text \<open>
  C4, as amended. At each of the five levels \<^verbatim>\<open>defaultFormatter\<close> returns one string:
  \<^verbatim>\<open>[LEVEL]\<close>, the timestamp, the optional groups, a dash, the message, a dash and the
  caller info, each inside its colour codes unless \<^verbatim>\<open>color.NoColor\<close> is set, joined by
  single spaces. The group of method and path is there if and only if both are
  non-empty; status, size and latency are there if and only if the field is non-empty.
  The string has no newline when the timestamp, the message and the fields have none.
  In the checkout scenario, with colour off, an RFC 3339 timestamp and a file name
  without ESC, \<^verbatim>\<open>Log\<close> writes \<^verbatim>\<open>[INFO]\<close>, the timestamp, \<^verbatim>\<open>POST /api/checkout\<close>,
  \<^verbatim>\<open>200 OK\<close>, \<^verbatim>\<open>51KB\<close>, \<^verbatim>\<open>120ms\<close>, the message and the caller token in this order.
\<close>

theorem defaultFormatter_line:
  assumes "(lv, ls, lc) \<in> set [(LevelDebug, ''DEBUG'', FgHiCyan), (LevelInfo, ''INFO'', FgHiGreen),
      (LevelWarn, ''WARN'', FgHiYellow), (LevelError, ''ERROR'', FgHiRed),
      (LevelFatal, ''FATAL'', FgHiMagenta)]"
  shows "defaultFormatter env lv m f =
      Inr (Join (map (\<lambda>(a, t). Sprint env a t)
        ([(lc, ''['' @ ls @ '']''), (FgHiWhite, now env)] @
         (if Method f \<noteq> [] \<and> Path f \<noteq> [] then [(FgHiBlue, Method f @ '' '' @ Path f)] else []) @
         (if Status f \<noteq> [] then [(FgHiGreen, Status f)] else []) @
         (if Size f \<noteq> [] then [(FgHiYellow, Size f)] else []) @
         (if Latency f \<noteq> [] then [(FgHiMagenta, Latency f)] else []) @
         [(FgHiWhite, ''-''), (FgCyan, m), (FgHiWhite, ''-''), (FgHiBlue, CallerInfo f)])) '' '') \<and>
    (LF \<notin> set (now env) \<union> set m \<union> set (Method f) \<union> set (Path f) \<union> set (Status f) \<union>
        set (Size f) \<union> set (Latency f) \<union> set (CallerInfo f) \<longrightarrow>
      (\<forall>r. defaultFormatter env lv m f = Inr r \<longrightarrow> LF \<notin> set r)) \<and>
    (\<not> color l \<and> formatter l = defaultFormatter \<and> level l \<le> LevelInfo \<and> rfc3339 (now env) \<and>
      ESC \<notin> set (fst (captured callers)) \<longrightarrow>
      Log env callers l LevelInfo ''Checkout completed''
        (NewLogFields ''POST'' ''/api/checkout'' ''200 OK'' ''51KB'' ''120ms'') w =
      Inr (l, fst (out l
        (''[INFO] '' @ now env @
         '' POST /api/checkout 200 OK 51KB 120ms - Checkout completed - '' @
         shortPath (fst (captured callers)) @ '':'' @ Itoa (snd (captured callers)) @ [LF]) w)))"
proof -
  have ls: "levelStyle lv = Some (ls, lc)" using assms by (rule levelStyle_table)
  have a: "defaultFormatter env lv m f =
      Inr (Join (map (\<lambda>(a, t). Sprint env a t)
        ([(lc, ''['' @ ls @ '']''), (FgHiWhite, now env)] @
         (if Method f \<noteq> [] \<and> Path f \<noteq> [] then [(FgHiBlue, Method f @ '' '' @ Path f)] else []) @
         (if Status f \<noteq> [] then [(FgHiGreen, Status f)] else []) @
         (if Size f \<noteq> [] then [(FgHiYellow, Size f)] else []) @
         (if Latency f \<noteq> [] then [(FgHiMagenta, Latency f)] else []) @
         [(FgHiWhite, ''-''), (FgCyan, m), (FgHiWhite, ''-''), (FgHiBlue, CallerInfo f)])) '' '')"
    using defaultFormatter_groups [OF ls, of env m f] unfolding lineGroups_def .
  have b: "LF \<notin> set (now env) \<union> set m \<union> set (Method f) \<union> set (Path f) \<union> set (Status f) \<union>
        set (Size f) \<union> set (Latency f) \<union> set (CallerInfo f) \<Longrightarrow>
      defaultFormatter env lv m f = Inr r \<Longrightarrow> LF \<notin> set r" for r
    using defaultFormatter_no_LF [OF ls, of env m f r] by simp
  have c: "\<not> color l \<and> formatter l = defaultFormatter \<and> level l \<le> LevelInfo \<and> rfc3339 (now env) \<and>
      ESC \<notin> set (fst (captured callers)) \<Longrightarrow>
      Log env callers l LevelInfo ''Checkout completed''
        (NewLogFields ''POST'' ''/api/checkout'' ''200 OK'' ''51KB'' ''120ms'') w =
      Inr (l, fst (out l
        (''[INFO] '' @ now env @
         '' POST /api/checkout 200 OK 51KB 120ms - Checkout completed - '' @
         shortPath (fst (captured callers)) @ '':'' @ Itoa (snd (captured callers)) @ [LF]) w))"
    using Checkout_scenario [of l env callers w] rfc3339_no_ESC [of "now env"] by blast
  from a b c show ?thesis by blast
qed

text \<open>
  The checkout scenario on a terminal (\<^verbatim>\<open>color.NoColor\<close> not set), logged by a logger
  with colour off from the place of \<open>exampleStack\<close>.
\<close>

theorem defaultFormatter_line_witness:
  "(LevelInfo, ''INFO'', FgHiGreen) \<in> set [(LevelDebug, ''DEBUG'', FgHiCyan),
      (LevelInfo, ''INFO'', FgHiGreen), (LevelWarn, ''WARN'', FgHiYellow),
      (LevelError, ''ERROR'', FgHiRed), (LevelFatal, ''FATAL'', FgHiMagenta)] \<and>
   rfc3339 (now exampleTTY) \<and>
   ESC \<notin> set (fst (captured exampleStack)) \<and>
   (\<exists>r. defaultFormatter exampleTTY LevelInfo ''Checkout completed''
        (NewLogFields ''POST'' ''/api/checkout'' ''200 OK'' ''51KB'' ''120ms'') = Inr r \<and>
      LF \<notin> set r) \<and>
   Log exampleTTY exampleStack (SetColor False (NewLogger bufferWrite ''app'')) LevelInfo
      ''Checkout completed''
      (NewLogFields ''POST'' ''/api/checkout'' ''200 OK'' ''51KB'' ''120ms'') [] =
   Inr (SetColor False (NewLogger bufferWrite ''app''),
        ''[INFO] 2025-06-14T12:30:25Z POST /api/checkout 200 OK 51KB 120ms - Checkout completed - src/runtime/proc.go:283'' @ [LF])"
proof -
  let ?l = "SetColor False (NewLogger bufferWrite ''app'')"
  let ?F = "NewLogFields ''POST'' ''/api/checkout'' ''200 OK'' ''51KB'' ''120ms''"
  have t: "(LevelInfo, ''INFO'', FgHiGreen) \<in> set [(LevelDebug, ''DEBUG'', FgHiCyan),
      (LevelInfo, ''INFO'', FgHiGreen), (LevelWarn, ''WARN'', FgHiYellow),
      (LevelError, ''ERROR'', FgHiRed), (LevelFatal, ''FATAL'', FgHiMagenta)]"
    by simp
  have ts: "rfc3339 (now exampleTTY)"
    by (simp add: rfc3339_def matchesShape_def isDigit_def exampleTTY_def exampleEnv_def)
  have e: "ESC \<notin> set (fst (captured exampleStack))"
    by (simp add: captured_def exampleStack_def)
  have nl: "LF \<notin> set (now exampleTTY) \<union> set ''Checkout completed'' \<union> set (Method ?F) \<union>
      set (Path ?F) \<union> set (Status ?F) \<union> set (Size ?F) \<union> set (Latency ?F) \<union>
      set (CallerInfo ?F)"
    by (simp add: NewLogFields_def exampleTTY_def exampleEnv_def)
  have l: "\<not> color ?l" "formatter ?l = defaultFormatter" "level ?l \<le> LevelInfo"
    "out ?l = bufferWrite"
    by (simp_all add: SetColor_def NewLogger_def)
  have p: "shortPath (fst (captured exampleStack)) @ '':'' @ Itoa (snd (captured exampleStack)) =
      ''src/runtime/proc.go:283''"
    by code_simp
  have n: "now exampleTTY = ''2025-06-14T12:30:25Z''"
    by (simp add: exampleTTY_def exampleEnv_def)
  note th = defaultFormatter_line [OF t, where env = exampleTTY and m = "''Checkout completed''"
      and f = ?F and l = ?l and callers = exampleStack and w = "[]"]
  from th nl have "\<exists>r. defaultFormatter exampleTTY LevelInfo ''Checkout completed'' ?F = Inr r \<and>
      LF \<notin> set r"
    by blast
  moreover from th l ts e have "Log exampleTTY exampleStack ?l LevelInfo ''Checkout completed'' ?F [] =
      Inr (?l, fst (out ?l
        (''[INFO] '' @ now exampleTTY @
         '' POST /api/checkout 200 OK 51KB 120ms - Checkout completed - '' @
         (shortPath (fst (captured exampleStack)) @ '':'' @ Itoa (snd (captured exampleStack))) @
         [LF]) []))"
    by simp
  then have "Log exampleTTY exampleStack ?l LevelInfo ''Checkout completed'' ?F [] =
      Inr (?l, ''[INFO] 2025-06-14T12:30:25Z POST /api/checkout 200 OK 51KB 120ms - Checkout completed - src/runtime/proc.go:283'' @ [LF])"
    unfolding p n by (simp add: l bufferWrite_def)
  ultimately show ?thesis using t ts e by blast
qed

text \<open>
  C4 as stated fails for fields with the method \<^verbatim>\<open>GET\<close>, no path and the status
  \<^verbatim>\<open>200\<close>, newline, \<^verbatim>\<open>OK\<close>: the method is non-empty and is not in the output, and the
  output has two lines.
\<close>

theorem defaultFormatter_not_single_line:
  "\<exists>r. defaultFormatter exampleEnv LevelInfo ''served''
       \<lparr>Method = ''GET'', Path = [], Status = ''200'' @ [LF] @ ''OK'', Size = [], Latency = [],
        CallerInfo = ''main.go:1''\<rparr> = Inr r \<and>
     r = ''[INFO] 2025-06-14T12:30:25Z 200'' @ [LF] @ ''OK - served - main.go:1'' \<and>
     LF \<in> set r \<and> \<not> sublist ''GET'' r"
proof -
  have "defaultFormatter exampleEnv LevelInfo ''served''
       \<lparr>Method = ''GET'', Path = [], Status = ''200'' @ [LF] @ ''OK'', Size = [], Latency = [],
        CallerInfo = ''main.go:1''\<rparr> =
      Inr (''[INFO] 2025-06-14T12:30:25Z 200'' @ [LF] @ ''OK - served - main.go:1'')"
    by code_simp
  moreover have "LF \<in> set (''[INFO] 2025-06-14T12:30:25Z 200'' @ [LF] @ ''OK - served - main.go:1'')"
    by simp
  moreover have "\<not> sublist ''GET'' (''[INFO] 2025-06-14T12:30:25Z 200'' @ [LF] @ ''OK - served - main.go:1'')"
    by code_simp
  ultimately show ?thesis by blast
qed

subsection \<open>C2: the JSON line\<close>

text \<open>
  C2, as amended. For every level, message and \<^verbatim>\<open>LogFields\<close> value the JSON formatter
  returns a JSON text: \<open>parseJSON\<close> reads it as an object with the four keys \<open>fields\<close>,
  \<open>level\<close>, \<open>message\<close> and \<open>timestamp\<close>. The value of \<open>level\<close> is the string
  \<^verbatim>\<open>level.String()\<close>, the lower-case name for each of the five levels. The values of
  \<open>message\<close> and \<open>timestamp\<close> are the message and the clock reading, and the object
  \<open>fields\<close> has one member for each non-empty field of the record, under the key of its
  tag and in the order of the declaration, and no member for an empty field. Each of these
  strings comes back with every byte that starts no well-formed UTF-8 sequence replaced by
  U+FFFD; a string that is valid UTF-8 comes back as it was, and so does a clock reading in
  the RFC 3339 layout.
\<close>

theorem JSONFormatter_round_trip:
  "(\<exists>r. JSONFormatter env lv message flds = Inr r \<and>
      parseJSON r =
        Some (JObject
          [(''fields'',
            JObject (map (\<lambda>(k, v). (k, JString (coerceUTF8 v)))
                       (filter (\<lambda>(k, v). v \<noteq> []) (declaredFields flds)))),
           (''level'', JString (LogLevel_String lv)),
           (''message'', JString (coerceUTF8 message)),
           (''timestamp'', JString (coerceUTF8 (now env)))])) \<and>
   LogLevel_String LevelDebug = ''debug'' \<and> LogLevel_String LevelInfo = ''info'' \<and>
   LogLevel_String LevelWarn = ''warn'' \<and> LogLevel_String LevelError = ''error'' \<and>
   LogLevel_String LevelFatal = ''fatal'' \<and>
   (validUTF8 s \<longrightarrow> coerceUTF8 s = s) \<and>
   (rfc3339 (now env) \<longrightarrow> coerceUTF8 (now env) = now env)"
proof -
  obtain r where r: "JSONFormatter env lv message flds = Inr r"
    using JSONFormatter_returns by blast
  from parse_JSONFormatter [OF r] r show ?thesis
    unfolding coerceUTF8_LogLevel
    using LogLevel_String_table coerceUTF8_valid coerceUTF8_rfc3339 by blast
qed

text \<open>
  The theorem for an Info line whose message has angle brackets and quotes and whose size
  field is empty, and for the word \<open>caf\<close> followed by the two bytes of e acute as a string
  that is valid UTF-8.
\<close>

theorem JSONFormatter_round_trip_witness:
  "validUTF8 (''caf'' @ [CHR 0xC3, CHR 0xA9]) \<and>
   coerceUTF8 (''caf'' @ [CHR 0xC3, CHR 0xA9]) = ''caf'' @ [CHR 0xC3, CHR 0xA9] \<and>
   rfc3339 (now exampleEnv) \<and>
   (\<exists>r. JSONFormatter exampleEnv LevelInfo (''<Checkout> '' @ [DQ] @ ''completed'' @ [DQ])
           (NewLogFields ''POST'' ''/api/checkout'' ''200 OK'' [] ''120ms'') = Inr r \<and>
      parseJSON r =
        Some (JObject
          [(''fields'',
            JObject [(''method'', JString ''POST''), (''path'', JString ''/api/checkout''),
                     (''status'', JString ''200 OK''), (''latency'', JString ''120ms'')]),
           (''level'', JString ''info''),
           (''message'', JString (''<Checkout> '' @ [DQ] @ ''completed'' @ [DQ])),
           (''timestamp'', JString ''2025-06-14T12:30:25Z'')]))"
proof -
  let ?s = "''caf'' @ [CHR 0xC3, CHR 0xA9]"
  let ?m = "''<Checkout> '' @ [DQ] @ ''completed'' @ [DQ]"
  let ?f = "NewLogFields ''POST'' ''/api/checkout'' ''200 OK'' [] ''120ms''"
  have v: "validUTF8 ?s"
    by (simp add: validUTF8_ascii validUTF8_multi validUTF8.simps(1) multiByte_def runeSize_def
        acceptLo_def acceptHi_def Let_def)
  have t: "rfc3339 (now exampleEnv)"
    by (simp add: rfc3339_def matchesShape_def isDigit_def exampleEnv_def)
  have n: "now exampleEnv = ''2025-06-14T12:30:25Z''" by (simp add: exampleEnv_def)
  have f: "map (\<lambda>(k, v). (k, JString (coerceUTF8 v)))
             (filter (\<lambda>(k, v). v \<noteq> []) (declaredFields ?f)) =
      [(''method'', JString ''POST''), (''path'', JString ''/api/checkout''),
       (''status'', JString ''200 OK''), (''latency'', JString ''120ms'')]"
    by (simp add: declaredFields_def NewLogFields_def coerceUTF8_ascii coerceUTF8.simps(1))
  have m: "coerceUTF8 ?m = ?m" by (simp add: coerceUTF8_ascii coerceUTF8.simps(1))
  note T = JSONFormatter_round_trip [where env = exampleEnv and lv = LevelInfo and message = ?m
      and flds = ?f and s = ?s]
  have c: "coerceUTF8 ?s = ?s" using T v by blast
  have "coerceUTF8 (now exampleEnv) = now exampleEnv" using T t by blast
  then have k: "coerceUTF8 (now exampleEnv) = ''2025-06-14T12:30:25Z''" using n by simp
  have "\<exists>r. JSONFormatter exampleEnv LevelInfo ?m ?f = Inr r \<and>
      parseJSON r =
        Some (JObject
          [(''fields'',
            JObject (map (\<lambda>(k, v). (k, JString (coerceUTF8 v)))
                       (filter (\<lambda>(k, v). v \<noteq> []) (declaredFields ?f)))),
           (''level'', JString (LogLevel_String LevelInfo)),
           (''message'', JString (coerceUTF8 ?m)),
           (''timestamp'', JString (coerceUTF8 (now exampleEnv)))])"
    using T by blast
  then have "\<exists>r. JSONFormatter exampleEnv LevelInfo ?m ?f = Inr r \<and>
      parseJSON r =
        Some (JObject
          [(''fields'',
            JObject [(''method'', JString ''POST''), (''path'', JString ''/api/checkout''),
                     (''status'', JString ''200 OK''), (''latency'', JString ''120ms'')]),
           (''level'', JString ''info''),
           (''message'', JString ?m),
           (''timestamp'', JString ''2025-06-14T12:30:25Z'')])"
    unfolding f m k LogLevel_String_table .
  then show ?thesis using v c t by blast
qed

text \<open>
  C2 as stated fails for a path that ends in the byte 0xFF: the object \<open>fields\<close> of the
  line does not contain the supplied path but the path with U+FFFD in place of that byte.
\<close>

theorem JSONFormatter_alters_field:
  "\<exists>r. JSONFormatter exampleEnv LevelInfo ''ok'' (NewLogFields ''GET'' (''/'' @ [CHR 0xFF]) [] [] []) =
         Inr r \<and>
       parseJSON r =
         Some (JObject
           [(''fields'',
             JObject [(''method'', JString ''GET''),
                      (''path'', JString (''/'' @ [CHR 0xEF, CHR 0xBF, CHR 0xBD]))]),
            (''level'', JString ''info''),
            (''message'', JString ''ok''),
            (''timestamp'', JString ''2025-06-14T12:30:25Z'')]) \<and>
       ''/'' @ [CHR 0xEF, CHR 0xBF, CHR 0xBD] \<noteq>
         Path (NewLogFields ''GET'' (''/'' @ [CHR 0xFF]) [] [] [])"
proof -
  let ?f = "NewLogFields ''GET'' (''/'' @ [CHR 0xFF]) [] [] []"
  obtain r where r: "JSONFormatter exampleEnv LevelInfo ''ok'' ?f = Inr r"
    using JSONFormatter_returns by blast
  have f: "map (\<lambda>(k, v). (k, JString (coerceUTF8 v)))
             (filter (\<lambda>(k, v). v \<noteq> []) (declaredFields ?f)) =
      [(''method'', JString ''GET''),
       (''path'', JString (''/'' @ [CHR 0xEF, CHR 0xBF, CHR 0xBD]))]"
    by (simp add: declaredFields_def NewLogFields_def coerceUTF8_ascii coerceUTF8_invalid
        coerceUTF8.simps(1) multiByte_def runeSize_def Let_def)
  have m: "coerceUTF8 ''ok'' = ''ok''" by (simp add: coerceUTF8_ascii coerceUTF8.simps(1))
  have n: "coerceUTF8 (now exampleEnv) = ''2025-06-14T12:30:25Z''"
    by (simp add: exampleEnv_def coerceUTF8_ascii coerceUTF8.simps(1))
  have l: "coerceUTF8 (LogLevel_String LevelInfo) = ''info''"
    by (simp add: LogLevel_String_table coerceUTF8_levels)
  have d: "''/'' @ [CHR 0xEF, CHR 0xBF, CHR 0xBD] \<noteq> Path ?f"
    by (simp add: NewLogFields_def)
  from parse_JSONFormatter [OF r] r d show ?thesis unfolding f m n l by blast
qed

subsection \<open>C3: the caller info\<close>




subsection \<open>C5: colour disabled\<close>

text \<open>
  C5, as amended. With colour disabled, a \<^verbatim>\<open>Log\<close> call that is not suppressed and whose
  formatter returns \<open>rendered\<close> writes \<open>stripColors rendered\<close> and a newline. If every ESC
  byte of \<open>rendered\<close> begins an escape sequence, what is written has no ESC byte and hence
  no escape sequence. With the JSON formatter that is always so: the rendered string has no
  ESC byte at all (the encoder writes a control character as an escape), and it is
  written as it is. With the text formatter, at a level that has a style, it is so when
  the clock reading, the message, the fields and the captured file name have no ESC byte:
  then the line that is written is the groups of the text line without their colour codes,
  joined by single spaces.
\<close>

theorem Log_color_disabled:
  assumes "\<not> color l" and "level l \<le> lv"
  shows
   "(\<forall>rendered.
       formatter l env lv (ReplaceAll msg LF '' '') (fillCaller callers flds) = Inr rendered \<longrightarrow>
       Log env callers l lv msg flds w =
         Inr (l, fst (out l (stripColors rendered @ [LF]) w)) \<and>
       (escapesMatch rendered \<longrightarrow>
          escFree (stripColors rendered) \<and> \<not> hasCSI (stripColors rendered @ [LF]))) \<and>
    (formatter l = JSONFormatter \<longrightarrow>
       (\<exists>rendered.
          JSONFormatter env lv (ReplaceAll msg LF '' '') (fillCaller callers flds) = Inr rendered \<and>
          Log env callers l lv msg flds w = Inr (l, fst (out l (rendered @ [LF]) w)) \<and>
          escFree rendered \<and> \<not> hasCSI (rendered @ [LF]))) \<and>
    (formatter l = defaultFormatter \<and> escFree (now env) \<and> escFree msg \<and> escFreeFields flds \<and>
     escFree (fst (captured callers)) \<longrightarrow>
       (\<forall>ls lc. levelStyle lv = Some (ls, lc) \<longrightarrow>
          (\<exists>line.
             line = Join (map snd (lineGroups ls lc (now env) (ReplaceAll msg LF '' '')
                                     (fillCaller callers flds))) '' '' \<and>
             Log env callers l lv msg flds w = Inr (l, fst (out l (line @ [LF]) w)) \<and>
             escFree line \<and> \<not> hasCSI (line @ [LF]))))"
proof -
  let ?m = "ReplaceAll msg LF '' ''"
  let ?f = "fillCaller callers flds"
  have n: "\<not> lv < level l" using assms(2) by simp
  have clean: "\<not> hasCSI (x @ [LF])" if "escFree x" for x
    using that by (intro no_ESC_no_CSI) (simp add: escFree_def)
  have 1: "Log env callers l lv msg flds w =
         Inr (l, fst (out l (stripColors r @ [LF]) w)) \<and>
       (escapesMatch r \<longrightarrow> escFree (stripColors r) \<and> \<not> hasCSI (stripColors r @ [LF]))"
    if "formatter l env lv ?m ?f = Inr r" for r
  proof -
    have "Log env callers l lv msg flds w = Inr (l, fst (out l (stripColors r @ [LF]) w))"
      using that n assms(1) by (simp add: Log_unfold)
    moreover have "escFree (stripColors r) \<and> \<not> hasCSI (stripColors r @ [LF])"
      if "escapesMatch r"
      using stripColors_no_ESC [OF that] clean [of "stripColors r"] by (simp add: escFree_def)
    ultimately show ?thesis by blast
  qed
  have 2: "\<exists>r. JSONFormatter env lv ?m ?f = Inr r \<and>
          Log env callers l lv msg flds w = Inr (l, fst (out l (r @ [LF]) w)) \<and>
          escFree r \<and> \<not> hasCSI (r @ [LF])"
    if j: "formatter l = JSONFormatter"
  proof -
    obtain r where r: "JSONFormatter env lv ?m ?f = Inr r" using JSONFormatter_returns by blast
    have e: "escFree r" using JSONFormatter_no_ESC [OF r] by (simp add: escFree_def)
    then have "stripColors r = r" using stripColors_plain [of r "[]"] by (simp add: escFree_def)
    then have "Log env callers l lv msg flds w = Inr (l, fst (out l (r @ [LF]) w))"
      using 1 [of r] r j by simp
    then show ?thesis using r e clean by blast
  qed
  have 3: "\<exists>line.
             line = Join (map snd (lineGroups ls lc (now env) ?m ?f)) '' '' \<and>
             Log env callers l lv msg flds w = Inr (l, fst (out l (line @ [LF]) w)) \<and>
             escFree line \<and> \<not> hasCSI (line @ [LF])"
    if d: "formatter l = defaultFormatter" and t: "escFree (now env)" and m: "escFree msg"
      and f: "escFreeFields flds" and c: "escFree (fst (captured callers))"
      and s: "levelStyle lv = Some (ls, lc)" for ls lc
  proof -
    let ?gs = "lineGroups ls lc (now env) ?m ?f"
    let ?line = "Join (map snd ?gs) '' ''"
    have r: "defaultFormatter env lv ?m ?f = Inr (Join (map (\<lambda>(a, t). Sprint env a t) ?gs) '' '')"
      using s by (rule defaultFormatter_groups)
    have g: "\<forall>g \<in> set ?gs. ESC \<notin> set (snd g)"
      using s t ReplaceAll_escFree [OF m] fillCaller_escFree [OF f c] by (rule lineGroups_escFree)
    have "stripColors (Join (map (\<lambda>(a, t). Sprint env a t) ?gs) '' '' @ []) =
        ?line @ stripColors []"
      using g by (rule stripColors_groups)
    then have st: "stripColors (Join (map (\<lambda>(a, t). Sprint env a t) ?gs) '' '') = ?line"
      by simp
    have "Log env callers l lv msg flds w = Inr (l, fst (out l (?line @ [LF]) w))"
      using 1 [of "Join (map (\<lambda>(a, t). Sprint env a t) ?gs) '' ''"] r d unfolding st by simp
    moreover have "escFree ?line"
      unfolding escFree_def using g by (intro Join_escFree) auto
    ultimately show ?thesis using clean by blast
  qed
  show ?thesis using 1 2 3 by blast
qed

text \<open>
  The theorem for a Warn line on a terminal with the text formatter, and for a message
  that holds an escape sequence with the JSON formatter.
\<close>

theorem Log_color_disabled_witness:
  "\<not> color (SetColor False (NewLogger bufferWrite ''app'')) \<and>
   level (SetColor False (NewLogger bufferWrite ''app'')) \<le> LevelWarn \<and>
   formatter (SetColor False (NewLogger bufferWrite ''app'')) = defaultFormatter \<and>
   escFree (now exampleTTY) \<and> escFree ''disk almost full'' \<and>
   escFreeFields (NewLogFields [] [] ''507'' [] []) \<and>
   escFree (fst (captured exampleStack)) \<and>
   levelStyle LevelWarn = Some (''WARN'', FgHiYellow) \<and>
   defaultFormatter exampleTTY LevelWarn (ReplaceAll ''disk almost full'' LF '' '')
       (fillCaller exampleStack (NewLogFields [] [] ''507'' [] [])) =
     Inr ([ESC] @ ''[93m[WARN]'' @ [ESC] @ ''[0m '' @ [ESC] @ ''[97m2025-06-14T12:30:25Z'' @
          [ESC] @ ''[0m '' @ [ESC] @ ''[92m507'' @ [ESC] @ ''[0m '' @ [ESC] @ ''[97m-'' @
          [ESC] @ ''[0m '' @ [ESC] @ ''[36mdisk almost full'' @ [ESC] @ ''[0m '' @ [ESC] @
          ''[97m-'' @ [ESC] @ ''[0m '' @ [ESC] @ ''[94msrc/runtime/proc.go:283'' @ [ESC] @
          ''[0m'') \<and>
   escapesMatch
     ([ESC] @ ''[93m[WARN]'' @ [ESC] @ ''[0m '' @ [ESC] @ ''[97m2025-06-14T12:30:25Z'' @
      [ESC] @ ''[0m '' @ [ESC] @ ''[92m507'' @ [ESC] @ ''[0m '' @ [ESC] @ ''[97m-'' @
      [ESC] @ ''[0m '' @ [ESC] @ ''[36mdisk almost full'' @ [ESC] @ ''[0m '' @ [ESC] @
      ''[97m-'' @ [ESC] @ ''[0m '' @ [ESC] @ ''[94msrc/runtime/proc.go:283'' @ [ESC] @
      ''[0m'') \<and>
   Log exampleTTY exampleStack (SetColor False (NewLogger bufferWrite ''app'')) LevelWarn
       ''disk almost full'' (NewLogFields [] [] ''507'' [] []) [] =
     Inr (SetColor False (NewLogger bufferWrite ''app''),
          ''[WARN] 2025-06-14T12:30:25Z 507 - disk almost full - src/runtime/proc.go:283'' @ [LF]) \<and>
   \<not> hasCSI
     (''[WARN] 2025-06-14T12:30:25Z 507 - disk almost full - src/runtime/proc.go:283'' @ [LF]) \<and>
   \<not> color (SetFormatter JSONFormatter (SetColor False (NewLogger bufferWrite ''app''))) \<and>
   formatter (SetFormatter JSONFormatter (SetColor False (NewLogger bufferWrite ''app''))) =
     JSONFormatter \<and>
   (\<exists>rendered.
      Log exampleTTY exampleStack
          (SetFormatter JSONFormatter (SetColor False (NewLogger bufferWrite ''app'')))
          LevelWarn ([ESC] @ ''[31mred'') (NewLogFields [] [] ''507'' [] []) [] =
        Inr (SetFormatter JSONFormatter (SetColor False (NewLogger bufferWrite ''app'')),
             rendered @ [LF]) \<and>
      escFree rendered \<and> \<not> hasCSI (rendered @ [LF]))"
proof -
  let ?lt = "SetColor False (NewLogger bufferWrite ''app'') :: string Logger"
  let ?lj = "SetFormatter JSONFormatter ?lt"
  let ?F = "NewLogFields [] [] ''507'' [] []"
  let ?R = "[ESC] @ ''[93m[WARN]'' @ [ESC] @ ''[0m '' @ [ESC] @ ''[97m2025-06-14T12:30:25Z'' @
          [ESC] @ ''[0m '' @ [ESC] @ ''[92m507'' @ [ESC] @ ''[0m '' @ [ESC] @ ''[97m-'' @
          [ESC] @ ''[0m '' @ [ESC] @ ''[36mdisk almost full'' @ [ESC] @ ''[0m '' @ [ESC] @
          ''[97m-'' @ [ESC] @ ''[0m '' @ [ESC] @ ''[94msrc/runtime/proc.go:283'' @ [ESC] @
          ''[0m''"
  let ?line = "''[WARN] 2025-06-14T12:30:25Z 507 - disk almost full - src/runtime/proc.go:283''"
  have lt: "\<not> color ?lt" "level ?lt \<le> LevelWarn" "formatter ?lt = defaultFormatter"
    "out ?lt = bufferWrite"
    by (simp_all add: SetColor_def NewLogger_def LevelInfo_def LevelWarn_def)
  have lj: "\<not> color ?lj" "level ?lj \<le> LevelWarn" "formatter ?lj = JSONFormatter"
    "out ?lj = bufferWrite"
    by (simp_all add: SetFormatter_def SetColor_def NewLogger_def LevelInfo_def LevelWarn_def)
  have e: "escFree (now exampleTTY)" "escFree ''disk almost full''" "escFreeFields ?F"
    "escFree (fst (captured exampleStack))"
    by (simp_all add: escFree_def escFreeFields_def exampleTTY_def exampleEnv_def
        NewLogFields_def captured_def exampleStack_def)
  have s: "levelStyle LevelWarn = Some (''WARN'', FgHiYellow)"
    by (simp add: levelStyle_def LevelWarn_def LevelInfo_def LevelDebug_def)
  have r: "defaultFormatter exampleTTY LevelWarn (ReplaceAll ''disk almost full'' LF '' '')
       (fillCaller exampleStack ?F) = Inr ?R"
    by code_simp
  have m: "escapesMatch ?R" by (simp add: match_csi_def is_param_def is_final_def)
  have g: "Join (map snd (lineGroups ''WARN'' FgHiYellow (now exampleTTY)
        (ReplaceAll ''disk almost full'' LF '' '') (fillCaller exampleStack ?F))) '' '' = ?line"
    by code_simp
  note T = Log_color_disabled [OF lt(1) lt(2), where env = exampleTTY and callers = exampleStack
      and msg = "''disk almost full''" and flds = ?F and w = "[]"]
  note J = Log_color_disabled [OF lj(1) lj(2), where env = exampleTTY and callers = exampleStack
      and msg = "[ESC] @ ''[31mred''" and flds = ?F and w = "[]"]
  have r': "formatter ?lt exampleTTY LevelWarn (ReplaceAll ''disk almost full'' LF '' '')
       (fillCaller exampleStack ?F) = Inr ?R"
    unfolding lt(3) by (rule r)
  have 1: "escFree (stripColors ?R)" using T r' m by blast
  have "\<exists>line. line = Join (map snd (lineGroups ''WARN'' FgHiYellow (now exampleTTY)
        (ReplaceAll ''disk almost full'' LF '' '') (fillCaller exampleStack ?F))) '' '' \<and>
      Log exampleTTY exampleStack ?lt LevelWarn ''disk almost full'' ?F [] =
        Inr (?lt, fst (out ?lt (line @ [LF]) [])) \<and>
      escFree line \<and> \<not> hasCSI (line @ [LF])"
    using T lt(3) e s by blast
  then have 2: "Log exampleTTY exampleStack ?lt LevelWarn ''disk almost full'' ?F [] =
        Inr (?lt, fst (out ?lt (?line @ [LF]) [])) \<and> \<not> hasCSI (?line @ [LF])"
    unfolding g by blast
  then have 3: "Log exampleTTY exampleStack ?lt LevelWarn ''disk almost full'' ?F [] =
        Inr (?lt, ?line @ [LF])"
    unfolding lt(4) by (simp add: bufferWrite_def)
  have "\<exists>rendered.
      JSONFormatter exampleTTY LevelWarn (ReplaceAll ([ESC] @ ''[31mred'') LF '' '')
        (fillCaller exampleStack ?F) = Inr rendered \<and>
      Log exampleTTY exampleStack ?lj LevelWarn ([ESC] @ ''[31mred'') ?F [] =
        Inr (?lj, fst (out ?lj (rendered @ [LF]) [])) \<and>
      escFree rendered \<and> \<not> hasCSI (rendered @ [LF])"
    using J lj(3) by blast
  then have 4: "\<exists>rendered.
      Log exampleTTY exampleStack ?lj LevelWarn ([ESC] @ ''[31mred'') ?F [] =
        Inr (?lj, rendered @ [LF]) \<and>
      escFree rendered \<and> \<not> hasCSI (rendered @ [LF])"
    unfolding lj(4) by (auto simp: bufferWrite_def)
  show ?thesis using lt(1-3) lj(1,3) e s r m 2 3 4 by blast
qed

text \<open>
  C5 as stated fails for the text formatter and the message ESC ESC \<open>[0m[0m\<close>: the pass
  deletes the colour codes and the inner sequence of the message, and the line that is
  written has the escape sequence ESC \<open>[0m\<close> that the deletion has put together.
\<close>

theorem Log_leaves_escape_sequence:
  "\<not> color (SetColor False (NewLogger bufferWrite ''app'')) \<and>
   level (SetColor False (NewLogger bufferWrite ''app'')) \<le> LevelInfo \<and>
   Log exampleTTY exampleStack (SetColor False (NewLogger bufferWrite ''app'')) LevelInfo
       ([ESC, ESC] @ ''[0m[0m'') (NewLogFields [] [] [] [] []) [] =
     Inr (SetColor False (NewLogger bufferWrite ''app''),
          ''[INFO] 2025-06-14T12:30:25Z - '' @ [ESC] @ ''[0m - src/runtime/proc.go:283'' @ [LF]) \<and>
   hasCSI (''[INFO] 2025-06-14T12:30:25Z - '' @ [ESC] @ ''[0m - src/runtime/proc.go:283'' @ [LF])"
proof -
  let ?lt = "SetColor False (NewLogger bufferWrite ''app'') :: string Logger"
  let ?R = "[ESC] @ ''[92m[INFO]'' @ [ESC] @ ''[0m '' @ [ESC] @ ''[97m2025-06-14T12:30:25Z'' @
          [ESC] @ ''[0m '' @ [ESC] @ ''[97m-'' @
          [ESC] @ ''[0m '' @ [ESC] @ ''[36m'' @ [ESC, ESC] @ ''[0m[0m'' @ [ESC] @ ''[0m '' @ [ESC] @
          ''[97m-'' @ [ESC] @ ''[0m '' @ [ESC] @ ''[94msrc/runtime/proc.go:283'' @ [ESC] @
          ''[0m''"
  have lt: "level ?lt = LevelInfo" "formatter ?lt = defaultFormatter" "out ?lt = bufferWrite"
    "\<not> color ?lt"
    by (simp_all add: SetColor_def NewLogger_def)
  have r: "defaultFormatter exampleTTY LevelInfo (ReplaceAll ([ESC, ESC] @ ''[0m[0m'') LF '' '')
       (fillCaller exampleStack (NewLogFields [] [] [] [] [])) = Inr ?R"
    by code_simp
  have s: "stripColors ?R =
      ''[INFO] 2025-06-14T12:30:25Z - '' @ [ESC] @ ''[0m - src/runtime/proc.go:283''"
    by (simp add: match_csi_def is_param_def is_final_def)
  have h: "hasCSI (''[INFO] 2025-06-14T12:30:25Z - '' @ [ESC] @
      ''[0m - src/runtime/proc.go:283'' @ [LF])"
    by (simp add: match_csi_def is_param_def is_final_def)
  have "Log exampleTTY exampleStack ?lt LevelInfo ([ESC, ESC] @ ''[0m[0m'')
      (NewLogFields [] [] [] [] []) [] =
     Inr (?lt, ''[INFO] 2025-06-14T12:30:25Z - '' @ [ESC] @ ''[0m - src/runtime/proc.go:283'' @ [LF])"
    unfolding Log_unfold lt(1-3) r sum.case using lt(4) s by (simp add: bufferWrite_def)
  then show ?thesis using lt(1,4) h by simp
qed

end
